theory Spec2Isabelle
  imports Main "HOL-Library.Word" "HOL-Library.Multiset"
begin

section \<open>Data model of queue.c\<close>

text \<open>
  A non-NULL pointer is an address; a pointer is an optional address, \<open>None\<close> being NULL.
  The heap maps the addresses of the live list elements to their contents.
  The header queue.h is not among the sources: the two structs are read off the field
  accesses of queue.c (\<open>value\<close>, \<open>next\<close>; \<open>head\<close>, \<open>tail\<close>, \<open>size\<close>).
  A \<open>char *\<close> that holds a C string is a \<open>string option\<close>: \<open>None\<close> is NULL, and the
  characters are those before the terminator.
\<close>

type_synonym addr = nat
type_synonym ptr = "addr option"

record list_ele_t =
  ele_value :: "string option"
  ele_next :: ptr

type_synonym heap = "addr \<Rightarrow> list_ele_t option"

text \<open>
  Modelled from the spec: queue.h is missing, so the declaration of \<open>size\<close> is; section 3
  makes it a count of nodes, and \<open>int q_size\<close> returns it as it is, so it is a C
  \<open>int\<close>: a word of 32 bits, read as a signed number, on which \<open>++\<close> and \<open>--\<close> wrap.
\<close>

record queue_t =
  head :: ptr
  tail :: ptr
  size :: "32 word"

text \<open>
  What C leaves undefined is a fault of the model: a dereference of NULL, a dereference of
  an address that holds no live element, a write past the end of the caller's buffer, and
  a failed \<open>assert\<close>.
\<close>

datatype fault = NullDeref | WildPtr | BufferOverflow | AssertFailed

text \<open>A loop that may run forever returns an option: \<open>None\<close> is "does not return".\<close>

type_synonym 'a result = "(fault + 'a) option"

text \<open>Sequencing: a fault or a call that does not return ends the caller too.\<close>

definition then_do :: "'a result \<Rightarrow> ('a \<Rightarrow> 'b result) \<Rightarrow> 'b result" where
  "then_do m k = (case m of None \<Rightarrow> None | Some (Inl f) \<Rightarrow> Some (Inl f) | Some (Inr x) \<Rightarrow> k x)"

lemma then_do_simps [simp]:
  "then_do None k = None"
  "then_do (Some (Inl f)) k = Some (Inl f)"
  "then_do (Some (Inr x)) k = k x"
  by (simp_all add: then_do_def)

lemma then_do_cong [fundef_cong]:
  "m = m' \<Longrightarrow> (\<And>x. m' = Some (Inr x) \<Longrightarrow> k x = k' x) \<Longrightarrow> then_do m k = then_do m' k'"
  by (auto simp: then_do_def split: option.splits sum.splits)

lemma then_do_mono [partial_function_mono]:
  assumes "mono_option B" and "\<And>y. mono_option (\<lambda>f. C y f)"
  shows "mono_option (\<lambda>f. then_do (B f) (\<lambda>y. C y f))"
proof -
  have eq: "(\<lambda>f. then_do (B f) (\<lambda>y. C y f)) =
    (\<lambda>f. Option.bind (B f) (\<lambda>r. case r of Inl e \<Rightarrow> Some (Inl e) | Inr y \<Rightarrow> C y f))"
    by (auto simp: then_do_def fun_eq_iff split: option.splits sum.splits)
  have inner: "mono_option (\<lambda>f. case r of Inl e \<Rightarrow> Some (Inl e) | Inr y \<Rightarrow> C y f)" for r
    using assms(2) by (cases r) (simp_all add: option.const_mono)
  show ?thesis
    unfolding eq by (rule bind_mono [OF assms(1) inner])
qed

section \<open>Creation, insertion, removal, size\<close>

text \<open>\<open>q_new\<close>: the argument is what \<open>malloc\<close> answers, \<open>False\<close> for NULL.\<close>

definition q_new :: "bool \<Rightarrow> queue_t option" where
  "q_new malloc_ok =
     (if \<not> malloc_ok then None
      else Some \<lparr>head = None, tail = None, size = 0\<rparr>)"

text \<open>
  \<open>q_insert_head h q s newh strdup_ok\<close>: \<open>newh\<close> is what \<open>malloc\<close> answers for the
  element (NULL, or an address that holds no live element), \<open>strdup_ok\<close> says whether
  \<open>strdup\<close> succeeds. The result is the heap, the queue and the returned bool.
  When \<open>strdup\<close> fails the element is freed again, so the heap is the one before.
  The other file of the repository allocates \<open>strlen(s) + 1\<close> bytes and copies the
  string and its terminator there where queue.c calls \<open>strdup\<close>, which is the same.
\<close>

definition q_insert_head ::
  "heap \<Rightarrow> queue_t option \<Rightarrow> string \<Rightarrow> ptr \<Rightarrow> bool \<Rightarrow> fault + (heap \<times> queue_t option \<times> bool)" where
  "q_insert_head h q s newh strdup_ok =
     (case q of
        None \<Rightarrow> Inr (h, None, False)
      | Some qv \<Rightarrow>
          (case newh of
             None \<Rightarrow> Inr (h, q, False)
           | Some n \<Rightarrow>
               if \<not> strdup_ok then Inr (h, q, False)
               else
                 let h1 = h(n \<mapsto> \<lparr>ele_value = Some s, ele_next = head qv\<rparr>);
                     q1 = qv\<lparr>head := Some n\<rparr>;
                     q2 = (if tail q1 = None then q1\<lparr>tail := Some n\<rparr> else q1)
                 in Inr (h1, Some (q2\<lparr>size := size q2 + 1\<rparr>), True)))"

text \<open>
  \<open>q_insert_tail\<close>: after \<open>newh->next = NULL\<close> and the update of \<open>head\<close>, the code
  writes \<open>q->tail->next\<close> whatever \<open>q->tail\<close> is.
\<close>

definition q_insert_tail ::
  "heap \<Rightarrow> queue_t option \<Rightarrow> string \<Rightarrow> ptr \<Rightarrow> bool \<Rightarrow> fault + (heap \<times> queue_t option \<times> bool)" where
  "q_insert_tail h q s newh strdup_ok =
     (case q of
        None \<Rightarrow> Inr (h, None, False)
      | Some qv \<Rightarrow>
          (case newh of
             None \<Rightarrow> Inr (h, q, False)
           | Some n \<Rightarrow>
               if \<not> strdup_ok then Inr (h, q, False)
               else
                 let h1 = h(n \<mapsto> \<lparr>ele_value = Some s, ele_next = None\<rparr>);
                     q1 = (if head qv = None then qv\<lparr>head := Some n\<rparr> else qv)
                 in (case tail q1 of
                       None \<Rightarrow> Inl NullDeref
                     | Some t \<Rightarrow>
                         (case h1 t of
                            None \<Rightarrow> Inl WildPtr
                          | Some te \<Rightarrow>
                              let h2 = h1(t \<mapsto> te\<lparr>ele_next := Some n\<rparr>);
                                  q2 = q1\<lparr>tail := Some n\<rparr>
                              in Inr (h2, Some (q2\<lparr>size := size q2 + 1\<rparr>), True)))))"

text \<open>
  The caller's buffer \<open>sp\<close> is the list of the bytes it holds, its length being the
  number of bytes the caller really owns. \<open>strncpy dst src n\<close> writes exactly \<open>n\<close>
  bytes: those of \<open>src\<close>, then zero bytes up to \<open>n\<close>.
\<close>

definition strncpy :: "string \<Rightarrow> string \<Rightarrow> nat \<Rightarrow> fault + string" where
  "strncpy dst src n =
     (if length dst < n then Inl BufferOverflow
      else Inr (take n src @ replicate (n - length src) (CHR 0x00) @ drop n dst))"

definition store_byte :: "string \<Rightarrow> nat \<Rightarrow> char \<Rightarrow> fault + string" where
  "store_byte dst i c = (if length dst \<le> i then Inl BufferOverflow else Inr (dst[i := c]))"

text \<open>
  The two statements \<open>strncpy(sp, q->head->value, bufsize - 1); sp[bufsize - 1] = '\0';\<close>.
  \<open>bufsize\<close> is a \<open>size_t\<close>, a word whose width is the platform's, so \<open>bufsize - 1\<close>
  wraps.
\<close>

definition copy_out :: "string \<Rightarrow> string \<Rightarrow> 'w::len word \<Rightarrow> fault + string" where
  "copy_out sp v bufsize =
     (case strncpy sp v (unat (bufsize - 1)) of
        Inl f \<Rightarrow> Inl f
      | Inr sp1 \<Rightarrow> store_byte sp1 (unat (bufsize - 1)) (CHR 0x00))"

text \<open>
  \<open>q_remove_head h q sp bufsize\<close>: the result is the heap, the queue, the buffer and the
  returned bool.
\<close>

definition q_remove_head ::
  "heap \<Rightarrow> queue_t option \<Rightarrow> string option \<Rightarrow> 'w::len word
     \<Rightarrow> fault + (heap \<times> queue_t option \<times> string option \<times> bool)" where
  "q_remove_head h q sp bufsize =
     (case q of
        None \<Rightarrow> Inr (h, None, sp, False)
      | Some qv \<Rightarrow>
          (case head qv of
             None \<Rightarrow> Inr (h, q, sp, False)
           | Some a \<Rightarrow>
               (case h a of
                  None \<Rightarrow> Inl WildPtr
                | Some e \<Rightarrow>
                    let copied =
                          (case ele_value e of
                             None \<Rightarrow> Inr sp
                           | Some v \<Rightarrow>
                               (case sp of
                                  None \<Rightarrow> Inr None
                                | Some buf \<Rightarrow>
                                    (case copy_out buf v bufsize of
                                       Inl f \<Rightarrow> Inl f
                                     | Inr buf1 \<Rightarrow> Inr (Some buf1))))
                    in (case copied of
                          Inl f \<Rightarrow> Inl f
                        | Inr sp1 \<Rightarrow>
                            let q1 = (if head qv = tail qv then qv\<lparr>tail := None\<rparr> else qv);
                                nh = ele_next e;
                                h1 = h(a := None);
                                q2 = q1\<lparr>head := nh\<rparr>
                            in Inr (h1, Some (q2\<lparr>size := size q2 - 1\<rparr>), sp1, True)))))"

definition q_size :: "queue_t option \<Rightarrow> int" where
  "q_size q =
     (case q of
        None \<Rightarrow> 0
      | Some qv \<Rightarrow> if head qv = None then 0 else sint (size qv))"

section \<open>Reversal\<close>

partial_function (option) reverse_loop :: "heap \<Rightarrow> ptr \<Rightarrow> ptr \<Rightarrow> (heap \<times> ptr) result" where
  "reverse_loop h pe e =
     (case e of
        None \<Rightarrow> Some (Inr (h, pe))
      | Some a \<Rightarrow>
          (case h a of
             None \<Rightarrow> Some (Inl WildPtr)
           | Some n \<Rightarrow> reverse_loop (h(a \<mapsto> n\<lparr>ele_next := pe\<rparr>)) (Some a) (ele_next n)))"

definition q_reverse :: "heap \<Rightarrow> queue_t option \<Rightarrow> (heap \<times> queue_t option) result" where
  "q_reverse h q =
     (case q of
        None \<Rightarrow> Some (Inr (h, None))
      | Some qv \<Rightarrow>
          if head qv = None then Some (Inr (h, q))
          else
            then_do (reverse_loop h None (head qv))
              (\<lambda>(h1, pe). Some (Inr (h1, Some (qv\<lparr>tail := head qv, head := pe\<rparr>)))))"

section \<open>Sorting\<close>

text \<open>
  The comparator \<open>strnatcasecmp\<close> of natsort/strnatcmp.h is not among the sources: it is
  a parameter of everything below. \<open>cmp_list_ele\<close> reads the two elements it is given.
\<close>

definition cmp_list_ele :: "(string \<Rightarrow> string \<Rightarrow> int) \<Rightarrow> list_ele_t \<Rightarrow> list_ele_t \<Rightarrow> int" where
  "cmp_list_ele strnatcasecmp x y =
     (if ele_value x = None \<or> ele_value y = None then
        (if ele_value x = None \<and> ele_value y = None then 0
         else if ele_value x = None then 1
         else - 1)
      else strnatcasecmp (the (ele_value x)) (the (ele_value y)))"

text \<open>
  The loop of \<open>__merge\<close>. The local \<open>_nl\<close> is not on the heap: \<open>nl = None\<close> stands for
  \<open>nl == &_nl\<close>, and \<open>first\<close> is the field \<open>_nl.next\<close>. \<open>store_next\<close> is the
  assignment \<open>nl->next = p\<close>.
\<close>

definition store_next :: "heap \<Rightarrow> ptr \<Rightarrow> ptr \<Rightarrow> ptr \<Rightarrow> fault + (heap \<times> ptr)" where
  "store_next h first nl p =
     (case nl of
        None \<Rightarrow> Inr (h, p)
      | Some a \<Rightarrow>
          (case h a of
             None \<Rightarrow> Inl WildPtr
           | Some e \<Rightarrow> Inr (h(a \<mapsto> e\<lparr>ele_next := p\<rparr>), first)))"

text \<open>The test \<open>t == NULL || (l != NULL && __cmp_list_ele(l, t) <= 0)\<close>.\<close>

definition takes_l :: "(string \<Rightarrow> string \<Rightarrow> int) \<Rightarrow> heap \<Rightarrow> ptr \<Rightarrow> ptr \<Rightarrow> fault + bool" where
  "takes_l strnatcasecmp h l t =
     (case t of
        None \<Rightarrow> Inr True
      | Some tb \<Rightarrow>
          (case l of
             None \<Rightarrow> Inr False
           | Some la \<Rightarrow>
               (case h la of
                  None \<Rightarrow> Inl WildPtr
                | Some le \<Rightarrow>
                    (case h tb of
                       None \<Rightarrow> Inl WildPtr
                     | Some te \<Rightarrow> Inr (cmp_list_ele strnatcasecmp le te \<le> 0)))))"

text \<open>One step \<open>nl->next = x; nl = x; x = x->next\<close>, for \<open>x\<close> either \<open>l\<close> or \<open>t\<close>.\<close>

definition advance :: "heap \<Rightarrow> ptr \<Rightarrow> ptr \<Rightarrow> ptr \<Rightarrow> fault + (heap \<times> ptr \<times> ptr \<times> ptr)" where
  "advance h first nl x =
     (case store_next h first nl x of
        Inl f \<Rightarrow> Inl f
      | Inr (h1, first1) \<Rightarrow>
          (case x of
             None \<Rightarrow> Inl NullDeref
           | Some a \<Rightarrow>
               (case h1 a of
                  None \<Rightarrow> Inl WildPtr
                | Some e \<Rightarrow> Inr (h1, first1, x, ele_next e))))"

partial_function (option) merge_loop ::
  "(string \<Rightarrow> string \<Rightarrow> int) \<Rightarrow> heap \<Rightarrow> ptr \<Rightarrow> ptr \<Rightarrow> ptr \<Rightarrow> ptr \<Rightarrow> (heap \<times> ptr) result" where
  "merge_loop strnatcasecmp h first nl l t =
     (if l \<noteq> None \<or> t \<noteq> None then
        (case takes_l strnatcasecmp h l t of
           Inl f \<Rightarrow> Some (Inl f)
         | Inr b \<Rightarrow>
             if b then
               (case advance h first nl l of
                  Inl f \<Rightarrow> Some (Inl f)
                | Inr (h1, first1, nl1, l1) \<Rightarrow> merge_loop strnatcasecmp h1 first1 nl1 l1 t)
             else
               (case advance h first nl t of
                  Inl f \<Rightarrow> Some (Inl f)
                | Inr (h1, first1, nl1, t1) \<Rightarrow> merge_loop strnatcasecmp h1 first1 nl1 l t1))
      else Some (store_next h first nl None))"

text \<open>\<open>__merge\<close>: \<open>_nl.next\<close> is not initialised, which the model writes as NULL.\<close>

definition merge :: "(string \<Rightarrow> string \<Rightarrow> int) \<Rightarrow> heap \<Rightarrow> ptr \<Rightarrow> ptr \<Rightarrow> (heap \<times> ptr) result" where
  "merge strnatcasecmp h l t = merge_loop strnatcasecmp h None None l t"

text \<open>
  The loop of the slow and fast pointers of \<open>__mergesort\<close>: the test
  \<open>fast != NULL && fast->next != NULL\<close>, then \<open>slow = slow->next\<close> and
  \<open>fast = fast->next->next\<close>.
\<close>

partial_function (option) split_loop :: "heap \<Rightarrow> ptr \<Rightarrow> ptr \<Rightarrow> ptr result" where
  "split_loop h slow fast =
     (case fast of
        None \<Rightarrow> Some (Inr slow)
      | Some f \<Rightarrow>
          (case h f of
             None \<Rightarrow> Some (Inl WildPtr)
           | Some fe \<Rightarrow>
               (case ele_next fe of
                  None \<Rightarrow> Some (Inr slow)
                | Some f1 \<Rightarrow>
                    (case slow of
                       None \<Rightarrow> Some (Inl NullDeref)
                     | Some s \<Rightarrow>
                         (case h s of
                            None \<Rightarrow> Some (Inl WildPtr)
                          | Some se \<Rightarrow>
                              (case h f1 of
                                 None \<Rightarrow> Some (Inl WildPtr)
                               | Some f1e \<Rightarrow> split_loop h (ele_next se) (ele_next f1e)))))))"

text \<open>
  \<open>__mergesort\<close>, the recursive sort. In queue.c it ends by calling \<open>__merge\<close>; the
  other file of the repository has the same loop written out in its place.
\<close>

partial_function (option) mergesort ::
  "(string \<Rightarrow> string \<Rightarrow> int) \<Rightarrow> heap \<Rightarrow> ptr \<Rightarrow> (heap \<times> ptr) result" where
  "mergesort strnatcasecmp h l =
     (case l of
        None \<Rightarrow> Some (Inr (h, l))
      | Some a \<Rightarrow>
          (case h a of
             None \<Rightarrow> Some (Inl WildPtr)
           | Some e \<Rightarrow>
               if ele_next e = None then Some (Inr (h, l))
               else
                 then_do (split_loop h l (ele_next e))
                   (\<lambda>slow.
                      case slow of
                        None \<Rightarrow> Some (Inl NullDeref)
                      | Some s \<Rightarrow>
                          (case h s of
                             None \<Rightarrow> Some (Inl WildPtr)
                           | Some se \<Rightarrow>
                               let t = ele_next se;
                                   h1 = h(s \<mapsto> se\<lparr>ele_next := None\<rparr>)
                               in then_do (mergesort strnatcasecmp h1 l)
                                    (\<lambda>(h2, l2).
                                       then_do (mergesort strnatcasecmp h2 t)
                                         (\<lambda>(h3, t3). merge strnatcasecmp h3 l2 t3))))))"

text \<open>
  \<open>__mergesort_bottomup\<close>. The static array \<open>arr\<close> is a list of 32 pointers. The first
  inner loop carries \<open>result\<close> up the array; \<open>carry_loop\<close> returns the index it stops at.
\<close>

function carry_loop ::
  "(string \<Rightarrow> string \<Rightarrow> int) \<Rightarrow> heap \<Rightarrow> ptr list \<Rightarrow> ptr \<Rightarrow> nat \<Rightarrow> (heap \<times> ptr list \<times> ptr \<times> nat) result" where
  "carry_loop strnatcasecmp h arr result i =
     (if i < 32 \<and> arr ! i \<noteq> None then
        then_do (merge strnatcasecmp h result (arr ! i))
          (\<lambda>(h1, result1). carry_loop strnatcasecmp h1 (arr[i := None]) result1 (i + 1))
      else Some (Inr (h, arr, result, i)))"
  by pat_completeness auto
termination
  by (relation "measure (\<lambda>(c, h, arr, result, i). 32 - i)") auto

partial_function (option) consume_loop ::
  "(string \<Rightarrow> string \<Rightarrow> int) \<Rightarrow> heap \<Rightarrow> ptr list \<Rightarrow> ptr \<Rightarrow> (heap \<times> ptr list \<times> ptr) result" where
  "consume_loop strnatcasecmp h arr result =
     (case result of
        None \<Rightarrow> Some (Inr (h, arr, result))
      | Some r \<Rightarrow>
          (case h r of
             None \<Rightarrow> Some (Inl WildPtr)
           | Some e \<Rightarrow>
               let next = ele_next e;
                   h1 = h(r \<mapsto> e\<lparr>ele_next := None\<rparr>)
               in then_do (carry_loop strnatcasecmp h1 arr result 0)
                    (\<lambda>(h2, arr2, result2, i).
                       let i1 = (if i = 32 then i - 1 else i)
                       in if arr2 ! i1 \<noteq> None then Some (Inl AssertFailed)
                          else consume_loop strnatcasecmp h2 (arr2[i1 := result2]) next)))"

function collect_loop ::
  "(string \<Rightarrow> string \<Rightarrow> int) \<Rightarrow> heap \<Rightarrow> ptr list \<Rightarrow> ptr \<Rightarrow> nat \<Rightarrow> (heap \<times> ptr) result" where
  "collect_loop strnatcasecmp h arr result i =
     (if i < 32 then
        (if arr ! i \<noteq> None then
           then_do (merge strnatcasecmp h result (arr ! i))
             (\<lambda>(h1, result1). collect_loop strnatcasecmp h1 arr result1 (i + 1))
         else collect_loop strnatcasecmp h arr result (i + 1))
      else Some (Inr (h, result)))"
  by pat_completeness auto
termination
  by (relation "measure (\<lambda>(c, h, arr, result, i). 32 - i)") auto

definition mergesort_bottomup ::
  "(string \<Rightarrow> string \<Rightarrow> int) \<Rightarrow> heap \<Rightarrow> ptr \<Rightarrow> (heap \<times> ptr) result" where
  "mergesort_bottomup strnatcasecmp h hd0 =
     then_do (consume_loop strnatcasecmp h (replicate 32 None) hd0)
       (\<lambda>(h1, arr, result). collect_loop strnatcasecmp h1 arr result 0)"

text \<open>\<open>q_sort\<close> of queue.c: only \<open>q->head\<close> is assigned.\<close>

definition q_sort ::
  "(string \<Rightarrow> string \<Rightarrow> int) \<Rightarrow> heap \<Rightarrow> queue_t option \<Rightarrow> (heap \<times> queue_t option) result" where
  "q_sort strnatcasecmp h q =
     (case q of
        None \<Rightarrow> Some (Inr (h, None))
      | Some qv \<Rightarrow>
          if head qv = None \<or> head qv = tail qv then Some (Inr (h, q))
          else
            then_do (mergesort_bottomup strnatcasecmp h (head qv))
              (\<lambda>(h1, r). Some (Inr (h1, Some (qv\<lparr>head := r\<rparr>)))))"

text \<open>\<open>q_sort\<close> of the other file of the repository, which calls \<open>__mergesort\<close>.\<close>

definition q_sort_topdown ::
  "(string \<Rightarrow> string \<Rightarrow> int) \<Rightarrow> heap \<Rightarrow> queue_t option \<Rightarrow> (heap \<times> queue_t option) result" where
  "q_sort_topdown strnatcasecmp h q =
     (case q of
        None \<Rightarrow> Some (Inr (h, None))
      | Some qv \<Rightarrow>
          if head qv = None \<or> head qv = tail qv then Some (Inr (h, q))
          else
            then_do (mergesort strnatcasecmp h (head qv))
              (\<lambda>(h1, r). Some (Inr (h1, Some (qv\<lparr>head := r\<rparr>)))))"

declare reverse_loop.simps [code] merge_loop.simps [code] split_loop.simps [code]
  mergesort.simps [code] consume_loop.simps [code]

declare carry_loop.simps [simp del] collect_loop.simps [simp del]

section \<open>Notions of the specification\<close>

subsection \<open>Chains and the invariant of the queue\<close>

text \<open>
  \<open>chain h p as\<close>: following \<open>next\<close> from \<open>p\<close> visits the live elements \<open>as\<close>, in
  this order, and then reaches NULL. \<open>queue_inv\<close> is the invariant of section 3 of the
  specification: the chain of \<open>head\<close> ends in NULL, \<open>tail\<close> is its last element (NULL
  for the empty queue) and \<open>size\<close> is its length, as a C \<open>int\<close> holds it.
\<close>

fun chain :: "heap \<Rightarrow> ptr \<Rightarrow> addr list \<Rightarrow> bool" where
  "chain h p [] = (p = None)"
| "chain h p (a # as) =
     (p = Some a \<and> (case h a of None \<Rightarrow> False | Some e \<Rightarrow> chain h (ele_next e) as))"

fun ptr_of :: "addr list \<Rightarrow> ptr" where
  "ptr_of [] = None"
| "ptr_of (a # as) = Some a"

definition queue_inv :: "heap \<Rightarrow> queue_t \<Rightarrow> addr list \<Rightarrow> bool" where
  "queue_inv h q as =
     (chain h (head q) as \<and> tail q = (if as = [] then None else Some (last as)) \<and>
      size q = of_nat (length as))"

text \<open>\<open>values_of h a\<close>: whether \<open>a\<close> is live in \<open>h\<close>, and the value it holds.\<close>

definition values_of :: "heap \<Rightarrow> addr \<Rightarrow> string option option" where
  "values_of h a = map_option ele_value (h a)"

text \<open>The values along a chain.\<close>

definition chain_values :: "heap \<Rightarrow> addr list \<Rightarrow> string option list" where
  "chain_values h as = map (\<lambda>a. case h a of None \<Rightarrow> None | Some e \<Rightarrow> ele_value e) as"

subsection \<open>Order and merging\<close>

text \<open>
  The contract of the comparator (section 4.5 of the specification): "at most" is total
  and transitive on strings.
\<close>

definition total_preorder :: "(string \<Rightarrow> string \<Rightarrow> int) \<Rightarrow> bool" where
  "total_preorder strnatcasecmp =
     ((\<forall>x y. strnatcasecmp x y \<le> 0 \<or> strnatcasecmp y x \<le> 0) \<and>
      (\<forall>x y z. strnatcasecmp x y \<le> 0 \<longrightarrow> strnatcasecmp y z \<le> 0 \<longrightarrow> strnatcasecmp x z \<le> 0))"

text \<open>\<open>ele_le\<close>: the element at \<open>a\<close> is at most the one at \<open>b\<close> for \<open>__cmp_list_ele\<close>.\<close>

definition ele_le :: "(string \<Rightarrow> string \<Rightarrow> int) \<Rightarrow> heap \<Rightarrow> addr \<Rightarrow> addr \<Rightarrow> bool" where
  "ele_le strnatcasecmp h a b =
     (case h a of
        None \<Rightarrow> False
      | Some x \<Rightarrow> (case h b of None \<Rightarrow> False | Some y \<Rightarrow> cmp_list_ele strnatcasecmp x y \<le> 0))"

text \<open>The merge of two lists, the first list winning a tie.\<close>

fun merge_list :: "('a \<Rightarrow> 'a \<Rightarrow> bool) \<Rightarrow> 'a list \<Rightarrow> 'a list \<Rightarrow> 'a list" where
  "merge_list le [] [] = []"
| "merge_list le (x # xs) [] = x # merge_list le xs []"
| "merge_list le [] (y # ys) = y # merge_list le [] ys"
| "merge_list le (x # xs) (y # ys) =
     (if le x y then x # merge_list le xs (y # ys) else y # merge_list le (x # xs) ys)"

text \<open>\<open>before cs a b\<close>: \<open>b\<close> occurs in \<open>cs\<close> after the first \<open>a\<close>.\<close>

definition before :: "'a list \<Rightarrow> 'a \<Rightarrow> 'a \<Rightarrow> bool" where
  "before cs a b = (b \<in> set (drop 1 (dropWhile (\<lambda>c. c \<noteq> a) cs)))"

text \<open>
  The invariant of \<open>__mergesort_bottomup\<close>: from index \<open>lo\<close> on, each slot of \<open>arr\<close>
  heads a sorted chain, \<open>R j\<close> for slot \<open>j\<close>, and the chains of two slots share no
  element. \<open>run_nodes lo R\<close> are the elements of these chains.
\<close>

definition runs_inv ::
  "nat \<Rightarrow> (addr \<Rightarrow> addr \<Rightarrow> bool) \<Rightarrow> heap \<Rightarrow> ptr list \<Rightarrow> (nat \<Rightarrow> addr list) \<Rightarrow> bool" where
  "runs_inv lo le h arr R =
     (length arr = 32 \<and>
      (\<forall>j. lo \<le> j \<and> j < 32 \<longrightarrow> chain h (arr ! j) (R j) \<and> sorted_wrt le (R j)) \<and>
      (\<forall>j k. lo \<le> j \<and> j < 32 \<and> lo \<le> k \<and> k < 32 \<and> j \<noteq> k \<longrightarrow> set (R j) \<inter> set (R k) = {}))"

definition run_nodes :: "nat \<Rightarrow> (nat \<Rightarrow> addr list) \<Rightarrow> addr set" where
  "run_nodes lo R = {a. \<exists>j. lo \<le> j \<and> j < 32 \<and> a \<in> set (R j)}"

subsection \<open>Scenarios\<close>

text \<open>
  The scenario of the round trip: every value is inserted at the tail, each allocation
  succeeding with the address given beside the value.
\<close>

fun insert_tail_all ::
  "heap \<Rightarrow> queue_t option \<Rightarrow> (string \<times> addr) list \<Rightarrow> fault + (heap \<times> queue_t option)" where
  "insert_tail_all h q [] = Inr (h, q)"
| "insert_tail_all h q ((v, a) # vs) =
     (case q_insert_tail h q v (Some a) True of
        Inl f \<Rightarrow> Inl f
      | Inr (h1, q1, ok) \<Rightarrow> insert_tail_all h1 q1 vs)"

text \<open>
  Removing \<open>k\<close> times from the head into the same buffer, reading the buffer as a C
  string after each call.
\<close>

fun remove_head_all ::
  "nat \<Rightarrow> heap \<Rightarrow> queue_t option \<Rightarrow> string \<Rightarrow> 64 word \<Rightarrow> fault + string list" where
  "remove_head_all 0 h q buf bufsize = Inr []"
| "remove_head_all (Suc k) h q buf bufsize =
     (case q_remove_head h q (Some buf) bufsize of
        Inl f \<Rightarrow> Inl f
      | Inr (h1, q1, sp1, r) \<Rightarrow>
          if \<not> r then Inr []
          else
            (case sp1 of
               None \<Rightarrow> Inr []
             | Some buf1 \<Rightarrow>
                 (case remove_head_all k h1 q1 buf1 bufsize of
                    Inl f \<Rightarrow> Inl f
                  | Inr vs \<Rightarrow> Inr (takeWhile (\<lambda>c. c \<noteq> CHR 0x00) buf1 # vs))))"

text \<open>
  A sequence of calls, each with what its allocations answer, and the number of
  successful insertions minus the number of successful removals.
\<close>

datatype call =
  Insert_head string ptr bool
| Insert_tail string ptr bool
| Remove_head "string option" "64 word"

fun run :: "heap \<Rightarrow> queue_t option \<Rightarrow> call list \<Rightarrow> fault + (heap \<times> queue_t option \<times> int)" where
  "run h q [] = Inr (h, q, 0)"
| "run h q (Insert_head s newh ok # cs) =
     (case q_insert_head h q s newh ok of
        Inl f \<Rightarrow> Inl f
      | Inr (h1, q1, r) \<Rightarrow>
          (case run h1 q1 cs of
             Inl f \<Rightarrow> Inl f
           | Inr (h2, q2, n) \<Rightarrow> Inr (h2, q2, n + (if r then 1 else 0))))"
| "run h q (Insert_tail s newh ok # cs) =
     (case q_insert_tail h q s newh ok of
        Inl f \<Rightarrow> Inl f
      | Inr (h1, q1, r) \<Rightarrow>
          (case run h1 q1 cs of
             Inl f \<Rightarrow> Inl f
           | Inr (h2, q2, n) \<Rightarrow> Inr (h2, q2, n + (if r then 1 else 0))))"
| "run h q (Remove_head sp bufsize # cs) =
     (case q_remove_head h q sp bufsize of
        Inl f \<Rightarrow> Inl f
      | Inr (h1, q1, sp1, r) \<Rightarrow>
          (case run h1 q1 cs of
             Inl f \<Rightarrow> Inl f
           | Inr (h2, q2, n) \<Rightarrow> Inr (h2, q2, n - (if r then 1 else 0))))"

text \<open>The addresses that the insertions of a sequence of calls are given.\<close>

fun allocs :: "call list \<Rightarrow> addr list" where
  "allocs [] = []"
| "allocs (Insert_head s (Some n) ok # cs) = n # allocs cs"
| "allocs (Insert_tail s (Some n) ok # cs) = n # allocs cs"
| "allocs (c # cs) = allocs cs"

subsection \<open>Comparators and heaps of the examples\<close>

text \<open>
  A concrete comparator for the examples: bytewise comparison, which is the natural order
  on the strings of one lower-case letter that the examples use.
\<close>

fun lex_cmp :: "string \<Rightarrow> string \<Rightarrow> int" where
  "lex_cmp [] [] = 0"
| "lex_cmp [] (y # ys) = - 1"
| "lex_cmp (x # xs) [] = 1"
| "lex_cmp (x # xs) (y # ys) =
     (if (of_char x :: nat) < of_char y then - 1
      else if (of_char y :: nat) < of_char x then 1
      else lex_cmp xs ys)"

text \<open>
  A comparator that ignores the case of ASCII letters, as \<open>strnatcasecmp\<close> does: on
  strings of one letter it is the natural order without case.
\<close>

definition to_lower :: "char \<Rightarrow> char" where
  "to_lower ch =
     (if 65 \<le> (of_char ch :: nat) \<and> (of_char ch :: nat) \<le> 90
      then char_of (of_char ch + 32 :: nat) else ch)"

definition nocase_cmp :: "string \<Rightarrow> string \<Rightarrow> int" where
  "nocase_cmp x y = lex_cmp (map to_lower x) (map to_lower y)"

text \<open>
  Queues of two elements, the element 1 first: the values b, a; the value a twice; the
  values a, A, which differ in case only.
\<close>

definition heap_ba :: heap where
  "heap_ba = [1 \<mapsto> \<lparr>ele_value = Some ''b'', ele_next = Some 2\<rparr>,
              2 \<mapsto> \<lparr>ele_value = Some ''a'', ele_next = None\<rparr>]"

definition heap_aa :: heap where
  "heap_aa = [1 \<mapsto> \<lparr>ele_value = Some ''a'', ele_next = Some 2\<rparr>,
              2 \<mapsto> \<lparr>ele_value = Some ''a'', ele_next = None\<rparr>]"

definition heap_aA :: heap where
  "heap_aA = [1 \<mapsto> \<lparr>ele_value = Some ''a'', ele_next = Some 2\<rparr>,
              2 \<mapsto> \<lparr>ele_value = Some ''A'', ele_next = None\<rparr>]"

definition queue_12 :: queue_t where
  "queue_12 = \<lparr>head = Some 1, tail = Some 2, size = 2\<rparr>"

text \<open>What the sorts make of them, and the queue after a sort.\<close>

definition heap_ba_sorted :: heap where
  "heap_ba_sorted = [1 \<mapsto> \<lparr>ele_value = Some ''b'', ele_next = None\<rparr>,
                     2 \<mapsto> \<lparr>ele_value = Some ''a'', ele_next = Some 1\<rparr>]"

definition heap_aA_swapped :: heap where
  "heap_aA_swapped = [1 \<mapsto> \<lparr>ele_value = Some ''a'', ele_next = None\<rparr>,
                      2 \<mapsto> \<lparr>ele_value = Some ''A'', ele_next = Some 1\<rparr>]"

definition queue_22 :: queue_t where
  "queue_22 = \<lparr>head = Some 2, tail = Some 2, size = 2\<rparr>"

text \<open>The heap after an insertion at the tail of the sorted queue a, b.\<close>

definition heap_lost :: heap where
  "heap_lost = [1 \<mapsto> \<lparr>ele_value = Some ''b'', ele_next = None\<rparr>,
                2 \<mapsto> \<lparr>ele_value = Some ''a'', ele_next = Some 3\<rparr>,
                3 \<mapsto> \<lparr>ele_value = Some ''c'', ele_next = None\<rparr>]"

text \<open>
  The heaps of a queue that is built through the calls of the interface: after the
  insertion of a at the head of the empty queue; after the insertion of b at the head;
  after a sort; after the removal of the head; after the insertion of z at the head.
\<close>

definition heap_a :: heap where
  "heap_a = [1 \<mapsto> \<lparr>ele_value = Some ''a'', ele_next = None\<rparr>]"

definition heap_b_a :: heap where
  "heap_b_a = [1 \<mapsto> \<lparr>ele_value = Some ''a'', ele_next = None\<rparr>,
               2 \<mapsto> \<lparr>ele_value = Some ''b'', ele_next = Some 1\<rparr>]"

definition heap_a_b :: heap where
  "heap_a_b = [1 \<mapsto> \<lparr>ele_value = Some ''a'', ele_next = Some 2\<rparr>,
               2 \<mapsto> \<lparr>ele_value = Some ''b'', ele_next = None\<rparr>]"

definition heap_b :: heap where
  "heap_b = [2 \<mapsto> \<lparr>ele_value = Some ''b'', ele_next = None\<rparr>]"

definition heap_z_b :: heap where
  "heap_z_b = [2 \<mapsto> \<lparr>ele_value = Some ''b'', ele_next = None\<rparr>,
               3 \<mapsto> \<lparr>ele_value = Some ''z'', ele_next = Some 2\<rparr>]"

text \<open>
  Two chains, the elements 1 (a) and 3 (c) and the element 2 (a), and the heap after their
  merge.
\<close>

definition heap_ac_a :: heap where
  "heap_ac_a = [1 \<mapsto> \<lparr>ele_value = Some ''a'', ele_next = Some 3\<rparr>,
                2 \<mapsto> \<lparr>ele_value = Some ''a'', ele_next = None\<rparr>,
                3 \<mapsto> \<lparr>ele_value = Some ''c'', ele_next = None\<rparr>]"

definition heap_ac_a_merged :: heap where
  "heap_ac_a_merged = [1 \<mapsto> \<lparr>ele_value = Some ''a'', ele_next = Some 2\<rparr>,
                       2 \<mapsto> \<lparr>ele_value = Some ''a'', ele_next = Some 3\<rparr>,
                       3 \<mapsto> \<lparr>ele_value = Some ''c'', ele_next = None\<rparr>]"

section \<open>Properties of chains\<close>

lemma chain_ptr_of: "chain h p as \<Longrightarrow> p = ptr_of as"
  by (cases as) auto

lemma chain_None [simp]: "chain h None as \<longleftrightarrow> as = []"
  by (cases as) auto

lemma chain_frame:
  "\<forall>a\<in>set as. h' a = h a \<Longrightarrow> chain h' p as = chain h p as"
  by (induction as arbitrary: p) (auto split: option.splits)

lemma chain_unique: "chain h p as \<Longrightarrow> chain h p bs \<Longrightarrow> as = bs"
proof (induction as arbitrary: p bs)
  case Nil
  then show ?case by simp
next
  case (Cons a as)
  then show ?case by (cases bs) (auto split: option.splits)
qed

lemma chain_append:
  "chain h p (xs @ ys) \<Longrightarrow> \<exists>q. chain h q ys"
  by (induction xs arbitrary: p) (auto split: option.splits)

lemma chain_distinct: "chain h p as \<Longrightarrow> distinct as"
proof (induction as arbitrary: p)
  case Nil
  then show ?case by simp
next
  case (Cons a as)
  then obtain e where e: "h a = Some e" "chain h (ele_next e) as" "p = Some a"
    by (auto split: option.splits)
  have "a \<notin> set as"
  proof
    assume "a \<in> set as"
    then obtain xs ys where split: "as = xs @ a # ys" by (meson split_list)
    with e(2) obtain q where "chain h q (a # ys)" using chain_append by blast
    then have "chain h (Some a) (a # ys)" by (auto split: option.splits)
    moreover have "chain h (Some a) (a # as)" using e by simp
    ultimately have "a # ys = a # as" by (rule chain_unique)
    with split show False by simp
  qed
  with Cons.IH e(2) show ?case by simp
qed

lemma chain_dom: "chain h p as \<Longrightarrow> a \<in> set as \<Longrightarrow> \<exists>e. h a = Some e"
  by (induction as arbitrary: p) (auto split: option.splits)

lemma chain_snoc:
  "chain h p (xs @ [y]) \<Longrightarrow> \<exists>e. h y = Some e \<and> ele_next e = None"
  by (induction xs arbitrary: p) (auto split: option.splits)

section \<open>Correctness of the reversal\<close>

lemma reverse_loop_chain:
  assumes "chain h e as" and "chain h pe ps" and "set as \<inter> set ps = {}"
  shows "\<exists>h'. reverse_loop h pe e = Some (Inr (h', ptr_of (rev as @ ps))) \<and>
           chain h' (ptr_of (rev as @ ps)) (rev as @ ps) \<and>
           values_of h' = values_of h \<and> (\<forall>a. a \<notin> set as \<longrightarrow> h' a = h a)"
  using assms
proof (induction as arbitrary: h e pe ps)
  case Nil
  then show ?case using chain_ptr_of[of h pe ps] by (simp add: reverse_loop.simps)
next
  case (Cons a as)
  from Cons.prems(1) obtain n where n: "e = Some a" "h a = Some n" "chain h (ele_next n) as"
    by (auto split: option.splits)
  have da: "a \<notin> set as" using chain_distinct[OF Cons.prems(1)] by simp
  have dp: "a \<notin> set ps" using Cons.prems(3) by simp
  let ?h1 = "h(a \<mapsto> n\<lparr>ele_next := pe\<rparr>)"
  have c1: "chain ?h1 (ele_next n) as"
    using n(3) da by (subst chain_frame[of as ?h1 h]) auto
  have "chain ?h1 pe ps"
    using Cons.prems(2) dp by (subst chain_frame[of ps ?h1 h]) auto
  then have c2: "chain ?h1 (Some a) (a # ps)" by simp
  have c3: "set as \<inter> set (a # ps) = {}" using Cons.prems(3) da by auto
  from Cons.IH[OF c1 c2 c3] obtain h' where h':
    "reverse_loop ?h1 (Some a) (ele_next n) = Some (Inr (h', ptr_of (rev as @ a # ps)))"
    "chain h' (ptr_of (rev as @ a # ps)) (rev as @ a # ps)"
    "values_of h' = values_of ?h1" "\<forall>b. b \<notin> set as \<longrightarrow> h' b = ?h1 b"
    by blast
  have v: "values_of ?h1 = values_of h"
    using n(2) by (auto simp: values_of_def fun_eq_iff)
  show ?case
    apply (rule exI[of _ h'])
    using h' n v by (subst reverse_loop.simps) auto
qed

lemma values_of_dom: "values_of h' = values_of h \<Longrightarrow> dom h' = dom h"
proof -
  assume v: "values_of h' = values_of h"
  have "h' a = None \<longleftrightarrow> h a = None" for a
    using fun_cong[OF v, of a] by (auto simp: values_of_def)
  then show ?thesis by (auto simp: dom_def)
qed

lemma chain_heap_eq:
  "chain h p as \<Longrightarrow> chain h' p as \<Longrightarrow> values_of h' = values_of h \<Longrightarrow> a \<in> set as \<Longrightarrow> h' a = h a"
proof (induction as arbitrary: p)
  case Nil
  then show ?case by simp
next
  case (Cons b as)
  from Cons.prems(1) obtain e where e: "h b = Some e" "chain h (ele_next e) as"
    by (auto split: option.splits)
  from Cons.prems(2) obtain e' where e': "h' b = Some e'" "chain h' (ele_next e') as"
    by (auto split: option.splits)
  have nx: "ele_next e' = ele_next e"
    using chain_ptr_of[OF e(2)] chain_ptr_of[OF e'(2)] by simp
  have "ele_value e' = ele_value e"
    using fun_cong[OF Cons.prems(3), of b] e(1) e'(1) by (simp add: values_of_def)
  with nx have ee: "e' = e" by simp
  show ?case
  proof (cases "a = b")
    case True
    with e e' ee show ?thesis by simp
  next
    case False
    with Cons.prems(4) have "a \<in> set as" by simp
    from Cons.IH[OF e(2) _ Cons.prems(3) this] e'(2) nx show ?thesis by simp
  qed
qed

lemma ptr_of_rev: "as \<noteq> [] \<Longrightarrow> ptr_of (rev as) = Some (last as)"
  by (induction as rule: rev_induct) auto

lemma ptr_of_hd: "as \<noteq> [] \<Longrightarrow> ptr_of as = Some (hd as)"
  by (cases as) auto

text \<open>
  C7. For every queue that satisfies the invariant, \<open>q_reverse\<close> returns, the chain of
  the new head is the old one reversed, head and tail are swapped, the set of live
  elements and every value are as before, only elements of the chain are touched, and a
  second \<open>q_reverse\<close> gives back the very heap and queue it started from.
\<close>

theorem q_reverse_involution:
  assumes "queue_inv h q as"
  shows "\<exists>h1 q1. q_reverse h (Some q) = Some (Inr (h1, Some q1)) \<and>
           queue_inv h1 q1 (rev as) \<and> head q1 = tail q \<and> tail q1 = head q \<and>
           size q1 = size q \<and> dom h1 = dom h \<and> values_of h1 = values_of h \<and>
           (\<forall>a. a \<notin> set as \<longrightarrow> h1 a = h a) \<and>
           q_reverse h1 (Some q1) = Some (Inr (h, Some q))"
proof (cases "as = []")
  case True
  with assms have "head q = None" "tail q = None"
    by (auto simp: queue_inv_def)
  with assms True show ?thesis
    by (auto simp: q_reverse_def)
next
  case False
  from assms have ch: "chain h (head q) as"
    and tl: "tail q = Some (last as)" and sz: "size q = of_nat (length as)"
    using False by (auto simp: queue_inv_def)
  have hd: "head q = Some (hd as)"
    using chain_ptr_of[OF ch] ptr_of_hd[OF False] by simp
  from reverse_loop_chain[OF ch, of None "[]"] obtain h1 where h1:
    "reverse_loop h None (head q) = Some (Inr (h1, ptr_of (rev as)))"
    "chain h1 (ptr_of (rev as)) (rev as)"
    "values_of h1 = values_of h" "\<forall>a. a \<notin> set as \<longrightarrow> h1 a = h a"
    by auto
  define q1 where "q1 = q\<lparr>tail := head q, head := ptr_of (rev as)\<rparr>"
  have r1: "q_reverse h (Some q) = Some (Inr (h1, Some q1))"
    using h1(1) hd by (simp add: q_reverse_def q1_def)
  have hq1: "head q1 = Some (last as)" "tail q1 = Some (hd as)" "size q1 = size q"
    using ptr_of_rev[OF False] hd by (simp_all add: q1_def)
  have inv1: "queue_inv h1 q1 (rev as)"
    using h1(2) hq1 sz False ptr_of_rev[OF False] by (simp add: queue_inv_def last_rev)
  from reverse_loop_chain[OF h1(2), of None "[]"] obtain h2 where h2:
    "reverse_loop h1 None (ptr_of (rev as)) = Some (Inr (h2, ptr_of as))"
    "chain h2 (ptr_of as) as"
    "values_of h2 = values_of h1" "\<forall>a. a \<notin> set as \<longrightarrow> h2 a = h1 a"
    by auto
  have "h2 a = h a" for a
  proof (cases "a \<in> set as")
    case True
    have "chain h (ptr_of as) as" using ch chain_ptr_of[OF ch] by simp
    from chain_heap_eq[OF this h2(2) _ True] h2(3) h1(3) show ?thesis by simp
  next
    case False
    with h2(4) h1(4) show ?thesis by simp
  qed
  then have heq: "h2 = h" by (simp add: fun_eq_iff)
  have qeq: "q1\<lparr>tail := head q1, head := ptr_of as\<rparr> = q"
    using hq1 tl hd ptr_of_hd[OF False] by (simp add: q1_def)
  have r2: "q_reverse h1 (Some q1) = Some (Inr (h, Some q))"
    using h2(1) hq1 ptr_of_rev[OF False] heq qeq by (simp add: q_reverse_def)
  show ?thesis
    using r1 inv1 hq1 tl hd h1(3) h1(4) r2 values_of_dom[OF h1(3)] by auto
qed

theorem q_reverse_involution_witness:
  "queue_inv heap_ba queue_12 [1, 2] \<and>
   (\<exists>h1 q1. q_reverse heap_ba (Some queue_12) = Some (Inr (h1, Some q1)) \<and>
      queue_inv h1 q1 [2, 1] \<and> head q1 = Some 2 \<and> tail q1 = Some 1 \<and>
      q_reverse h1 (Some q1) = Some (Inr (heap_ba, Some queue_12)))"
proof -
  have inv: "queue_inv heap_ba queue_12 [1, 2]"
    by (simp add: queue_inv_def heap_ba_def queue_12_def)
  from q_reverse_involution [OF inv] show ?thesis
    using inv by (auto simp: queue_12_def)
qed

section \<open>Removal from the head\<close>

lemma copy_out_fits:
  fixes bufsize :: "'w::len word"
  assumes "1 \<le> unat bufsize" "unat bufsize \<le> length buf"
  shows "copy_out buf v bufsize =
     Inr (take (unat bufsize - 1) v @ replicate (unat bufsize - 1 - length v) (CHR 0x00) @
          CHR 0x00 # drop (unat bufsize) buf)"
proof -
  define n where "n = unat bufsize"
  have u: "unat (bufsize - 1) = n - 1"
    using assms(1) by (simp add: unat_sub word_le_nat_alt n_def)
  define pre where "pre = take (n - 1) v @ replicate (n - 1 - length v) (CHR 0x00)"
  have n: "1 \<le> n" "n \<le> length buf" using assms by (simp_all add: n_def)
  have len: "length pre = n - 1" by (auto simp: pre_def)
  have s: "strncpy buf v (n - 1) = Inr (pre @ drop (n - 1) buf)"
    using n by (simp add: strncpy_def pre_def)
  have d: "drop (n - 1) buf = buf ! (n - 1) # drop n buf"
    using n by (metis Cons_nth_drop_Suc Suc_diff_1 less_eq_Suc_le One_nat_def)
  have "(pre @ buf ! (n - 1) # drop n buf)[length pre := CHR 0x00] = pre @ CHR 0x00 # drop n buf"
    by (rule list_update_length)
  then have upd: "(pre @ drop (n - 1) buf)[n - 1 := CHR 0x00] = pre @ CHR 0x00 # drop n buf"
    by (simp only: len d)
  have fits: "\<not> length (pre @ drop (n - 1) buf) \<le> n - 1"
    using n len by auto
  have "store_byte (pre @ drop (n - 1) buf) (n - 1) (CHR 0x00) = Inr (pre @ CHR 0x00 # drop n buf)"
    unfolding store_byte_def using upd fits by (simp only: if_False)
  then show ?thesis
    unfolding copy_out_def u s n_def[symmetric] by (simp add: pre_def)
qed

lemma copy_out_overflow:
  fixes bufsize :: "'w::len word"
  assumes "length buf \<le> unat (bufsize - 1)"
  shows "copy_out buf v bufsize = Inl BufferOverflow"
  using assms by (auto simp: copy_out_def strncpy_def store_byte_def split: sum.splits)

lemma cstring_of_copy:
  assumes "CHR 0x00 \<notin> set v"
  shows "takeWhile (\<lambda>c. c \<noteq> CHR 0x00) (take k v @ replicate m (CHR 0x00) @ CHR 0x00 # rest) = take k v"
proof -
  have "\<forall>c\<in>set (take k v). c \<noteq> CHR 0x00" using assms by (auto dest: in_set_takeD)
  then show ?thesis by (cases m) (simp_all add: takeWhile_append2)
qed

text \<open>
  C5, as amended. \<open>q_remove_head\<close> returns false and changes nothing when the queue is
  NULL or empty (the size of an empty queue is 0 and stays so). When the queue has a head
  element with a value and, if a buffer is supplied, \<open>1 \<le> bufsize\<close> and the buffer holds
  at least \<open>bufsize\<close> bytes, it returns true, frees the head element, advances \<open>head\<close>,
  sets \<open>tail\<close> to NULL if the head was the tail, decrements \<open>size\<close>, and leaves in the
  buffer the first \<open>bufsize - 1\<close> bytes of the value, zero bytes up to index
  \<open>bufsize - 1\<close> included, and the old bytes after it: read as a C string, the buffer is
  the value cut to \<open>bufsize - 1\<close> bytes.
\<close>

theorem q_remove_head_spec:
  fixes bufsize :: "'w::len word"
  shows "q_remove_head h None sp bufsize = Inr (h, None, sp, False) \<and>
    (head q = None \<longrightarrow>
       q_remove_head h (Some q) sp bufsize = Inr (h, Some q, sp, False) \<and> q_size (Some q) = 0) \<and>
    (head q = Some a \<and> h a = Some e \<and> ele_value e = Some v \<and>
     (\<forall>buf. sp = Some buf \<longrightarrow> 1 \<le> unat bufsize \<and> unat bufsize \<le> length buf) \<longrightarrow>
       (\<exists>sp1. q_remove_head h (Some q) sp bufsize =
          Inr (h(a := None),
               Some \<lparr>head = ele_next e,
                     tail = (if tail q = Some a then None else tail q),
                     size = size q - 1\<rparr>,
               sp1, True) \<and>
          (sp = None \<longrightarrow> sp1 = None) \<and>
          (\<forall>buf. sp = Some buf \<longrightarrow>
             sp1 = Some (take (unat bufsize - 1) v @
                         replicate (unat bufsize - 1 - length v) (CHR 0x00) @
                         CHR 0x00 # drop (unat bufsize) buf) \<and>
             (CHR 0x00 \<notin> set v \<longrightarrow>
                takeWhile (\<lambda>c. c \<noteq> CHR 0x00) (the sp1) = take (unat bufsize - 1) v))))"
proof (intro conjI impI)
  show "q_remove_head h None sp bufsize = Inr (h, None, sp, False)"
    by (simp add: q_remove_head_def)
next
  assume "head q = None"
  then show "q_remove_head h (Some q) sp bufsize = Inr (h, Some q, sp, False)"
    by (simp add: q_remove_head_def)
next
  assume "head q = None"
  then show "q_size (Some q) = 0" by (simp add: q_size_def)
next
  assume a: "head q = Some a \<and> h a = Some e \<and> ele_value e = Some v \<and>
     (\<forall>buf. sp = Some buf \<longrightarrow> 1 \<le> unat bufsize \<and> unat bufsize \<le> length buf)"
  have q': "(if Some a = tail q then q\<lparr>tail := None\<rparr> else q)\<lparr>head := ele_next e\<rparr>
              \<lparr>size := size ((if Some a = tail q then q\<lparr>tail := None\<rparr> else q)\<lparr>head := ele_next e\<rparr>) - 1\<rparr>
            = \<lparr>head = ele_next e, tail = (if tail q = Some a then None else tail q), size = size q - 1\<rparr>"
    by auto
  show "\<exists>sp1. q_remove_head h (Some q) sp bufsize =
          Inr (h(a := None),
               Some \<lparr>head = ele_next e,
                     tail = (if tail q = Some a then None else tail q),
                     size = size q - 1\<rparr>,
               sp1, True) \<and>
          (sp = None \<longrightarrow> sp1 = None) \<and>
          (\<forall>buf. sp = Some buf \<longrightarrow>
             sp1 = Some (take (unat bufsize - 1) v @
                         replicate (unat bufsize - 1 - length v) (CHR 0x00) @
                         CHR 0x00 # drop (unat bufsize) buf) \<and>
             (CHR 0x00 \<notin> set v \<longrightarrow>
                takeWhile (\<lambda>c. c \<noteq> CHR 0x00) (the sp1) = take (unat bufsize - 1) v))"
  proof (cases sp)
    case None
    with a q' show ?thesis by (simp add: q_remove_head_def Let_def)
  next
    case (Some buf)
    with a have n: "1 \<le> unat bufsize" "unat bufsize \<le> length buf" by auto
    from copy_out_fits[OF n, of v] Some a q' show ?thesis
      by (simp add: q_remove_head_def Let_def cstring_of_copy)
  qed
qed

theorem q_remove_head_spec_witness:
  "q_remove_head heap_ba (Some \<lparr>head = None, tail = None, size = 0\<rparr>) (Some ''xyz'') (3::64 word) =
     Inr (heap_ba, Some \<lparr>head = None, tail = None, size = 0\<rparr>, Some ''xyz'', False) \<and>
   q_remove_head heap_aa (Some queue_12) (Some ''xyzw'') (3::64 word) =
     Inr (heap_aa(1 := None), Some \<lparr>head = Some 2, tail = Some 2, size = 1\<rparr>,
          Some [CHR ''a'', CHR 0x00, CHR 0x00, CHR ''w''], True)"
  using q_remove_head_spec [of heap_ba "Some ''xyz''" "3::64 word" "\<lparr>head = None, tail = None, size = 0\<rparr>"]
    q_remove_head_spec [of heap_aa "Some ''xyzw''" "3::64 word" queue_12 1
       "\<lparr>ele_value = Some ''a'', ele_next = Some 2\<rparr>" "''a''"]
  by (simp add: queue_12_def heap_aa_def)

text \<open>
  C5 as stated fails for a supplied buffer with \<open>bufsize = 0\<close>: the call does not
  return true, it writes past the buffer.
\<close>

theorem q_remove_head_zero_capacity_counterexample:
  "q_remove_head heap_ba (Some queue_12) (Some []) (0::64 word) = Inl BufferOverflow"
  by (simp add: q_remove_head_def heap_ba_def queue_12_def copy_out_def strncpy_def
      unsigned_minus_1_eq_mask mask_eq_exp_minus_1)

text \<open>
  C10. With a buffer supplied (any buffer smaller than the address space) and a head
  element that has a value: for \<open>bufsize = 0\<close> the length \<open>bufsize - 1\<close> wraps to
  \<open>2 ^ w - 1\<close>, the index \<open>bufsize - 1\<close> is outside the buffer and the call overflows
  it; and the call is free of faults exactly when \<open>1 \<le> bufsize\<close> and the buffer holds at
  least \<open>bufsize\<close> bytes.
\<close>

theorem q_remove_head_capacity:
  fixes bufsize :: "'w::len word"
  assumes "head q = Some a" and "h a = Some e" and "ele_value e = Some v"
    and "length buf < 2 ^ LENGTH('w)"
  shows "(bufsize = 0 \<longrightarrow>
            unat (bufsize - 1) = 2 ^ LENGTH('w) - 1 \<and> length buf \<le> unat (bufsize - 1) \<and>
            q_remove_head h (Some q) (Some buf) bufsize = Inl BufferOverflow) \<and>
         ((\<exists>r. q_remove_head h (Some q) (Some buf) bufsize = Inr r) \<longleftrightarrow>
            1 \<le> unat bufsize \<and> unat bufsize \<le> length buf)"
proof -
  have zero: "unat (bufsize - 1) = 2 ^ LENGTH('w) - 1 \<and> length buf \<le> unat (bufsize - 1) \<and>
            q_remove_head h (Some q) (Some buf) bufsize = Inl BufferOverflow" if "bufsize = 0"
  proof -
    have u: "unat (bufsize - 1) = 2 ^ LENGTH('w) - 1"
      using that by (simp add: unsigned_minus_1_eq_mask mask_eq_exp_minus_1)
    have le: "length buf \<le> unat (bufsize - 1)" using u assms(4) by simp
    have "q_remove_head h (Some q) (Some buf) bufsize = Inl BufferOverflow"
      using assms(1-3) copy_out_overflow[OF le, of v]
      by (simp add: q_remove_head_def Let_def)
    with u le show ?thesis by simp
  qed
  have ok: "\<exists>r. q_remove_head h (Some q) (Some buf) bufsize = Inr r"
    if "1 \<le> unat bufsize" "unat bufsize \<le> length buf"
  proof -
    from copy_out_fits[OF that, of v] assms(1-3) show ?thesis
      by (auto simp: q_remove_head_def Let_def)
  qed
  have bad: "q_remove_head h (Some q) (Some buf) bufsize = Inl BufferOverflow"
    if "\<not> (1 \<le> unat bufsize \<and> unat bufsize \<le> length buf)"
  proof (cases "bufsize = 0")
    case True
    with zero show ?thesis by simp
  next
    case False
    then have "1 \<le> unat bufsize" by (simp add: unat_gt_0 Suc_leI)
    with that have big: "length buf < unat bufsize" by simp
    have u: "unat (bufsize - 1) = unat bufsize - 1"
      using \<open>1 \<le> unat bufsize\<close> by (simp add: unat_sub word_le_nat_alt)
    have "length buf \<le> unat (bufsize - 1)" using big u by simp
    from copy_out_overflow[OF this, of v] show ?thesis
      using assms(1-3) by (simp add: q_remove_head_def Let_def)
  qed
  have iff: "(\<exists>r. q_remove_head h (Some q) (Some buf) bufsize = Inr r) \<longleftrightarrow>
      1 \<le> unat bufsize \<and> unat bufsize \<le> length buf"
  proof
    assume "\<exists>r. q_remove_head h (Some q) (Some buf) bufsize = Inr r"
    then obtain r where r: "q_remove_head h (Some q) (Some buf) bufsize = Inr r" ..
    show "1 \<le> unat bufsize \<and> unat bufsize \<le> length buf"
    proof (rule ccontr)
      assume "\<not> (1 \<le> unat bufsize \<and> unat bufsize \<le> length buf)"
      from bad[OF this] r show False by simp
    qed
  next
    assume "1 \<le> unat bufsize \<and> unat bufsize \<le> length buf"
    then show "\<exists>r. q_remove_head h (Some q) (Some buf) bufsize = Inr r"
      using ok by blast
  qed
  show ?thesis using zero iff by blast
qed

theorem q_remove_head_capacity_witness:
  "unat ((0::64 word) - 1) = 2 ^ 64 - 1 \<and>
   q_remove_head heap_ba (Some queue_12) (Some ''xyz'') (0::64 word) = Inl BufferOverflow \<and>
   (\<exists>r. q_remove_head heap_ba (Some queue_12) (Some ''xyz'') (3::64 word) = Inr r)"
  using q_remove_head_capacity [of queue_12 1 heap_ba "\<lparr>ele_value = Some ''b'', ele_next = Some 2\<rparr>" "''b''" "''xyz''" "0::64 word"]
    q_remove_head_capacity [of queue_12 1 heap_ba "\<lparr>ele_value = Some ''b'', ele_next = Some 2\<rparr>" "''b''" "''xyz''" "3::64 word"]
  by (simp add: queue_12_def heap_ba_def)

section \<open>Insertion at the tail of an empty queue\<close>

text \<open>
  C2 fails on the code: on an empty queue, with both allocations succeeding,
  \<open>q_insert_tail\<close> sets \<open>head\<close> and then writes \<open>q->tail->next\<close> through the NULL
  \<open>tail\<close>. \<open>q_insert_head\<close> tests \<open>q->tail == NULL\<close> before it uses it.
\<close>

theorem q_insert_tail_empty_queue:
  "q_insert_tail h (q_new True) s (Some a) True = Inl NullDeref"
  by (simp add: q_insert_tail_def q_new_def)

text \<open>
  C8 fails on the code: the first insertion at the tail of the empty queue is the fault
  of C2, so no value is ever inserted.
\<close>

theorem insert_tail_all_empty_queue:
  "insert_tail_all h (q_new True) ((v, a) # vs) = Inl NullDeref"
  by (simp add: q_insert_tail_def q_new_def)

text \<open>
  C9 fails on the code: a sequence whose first call is a successful insertion at the tail
  ends in the fault of C2.
\<close>

theorem run_insert_tail_first:
  "run h (q_new True) (Insert_tail s (Some a) True # cs) = Inl NullDeref"
  by (simp add: q_insert_tail_def q_new_def)

section \<open>Correctness of the merge\<close>

subsection \<open>Merging lists\<close>

lemma merge_list_Nil2 [simp]: "merge_list le xs [] = xs"
  by (induction xs) auto

lemma merge_list_Nil1 [simp]: "merge_list le [] ys = ys"
  by (induction ys) auto

lemma set_merge_list [simp]: "set (merge_list le xs ys) = set xs \<union> set ys"
  by (induction le xs ys rule: merge_list.induct) auto

lemma mset_merge_list [simp]: "mset (merge_list le xs ys) = mset xs + mset ys"
  by (induction le xs ys rule: merge_list.induct) auto

lemma sorted_merge_list:
  "transp le \<Longrightarrow> \<forall>x\<in>set xs. \<forall>y\<in>set ys. \<not> le x y \<longrightarrow> le y x \<Longrightarrow>
   sorted_wrt le xs \<Longrightarrow> sorted_wrt le ys \<Longrightarrow> sorted_wrt le (merge_list le xs ys)"
proof (induction le xs ys rule: merge_list.induct)
  case (4 le x xs y ys)
  have trans: "le u w" if "le u v" "le v w" for u v w
    using "4.prems"(1) that by (rule transpD)
  have sx: "\<forall>z\<in>set xs. le x z" "sorted_wrt le xs"
    using "4.prems"(3) by simp_all
  have sy: "\<forall>z\<in>set ys. le y z" "sorted_wrt le ys"
    using "4.prems"(4) by simp_all
  show ?case
  proof (cases "le x y")
    case True
    have "\<forall>z\<in>set ys. le x z" using sy(1) True trans by blast
    moreover have "sorted_wrt le (merge_list le xs (y # ys))"
    proof (rule "4.IH"(1)[OF True "4.prems"(1) _ sx(2) "4.prems"(4)])
      show "\<forall>a\<in>set xs. \<forall>b\<in>set (y # ys). \<not> le a b \<longrightarrow> le b a"
        using "4.prems"(2) by simp
    qed
    ultimately show ?thesis using True sx(1) by auto
  next
    case False
    then have yx: "le y x" using "4.prems"(2) by simp
    have "\<forall>z\<in>set xs. le y z" using sx(1) yx trans by blast
    moreover have "sorted_wrt le (merge_list le (x # xs) ys)"
    proof (rule "4.IH"(2)[OF False "4.prems"(1) _ "4.prems"(3) sy(2)])
      show "\<forall>a\<in>set (x # xs). \<forall>b\<in>set ys. \<not> le a b \<longrightarrow> le b a"
        using "4.prems"(2) by simp
    qed
    ultimately show ?thesis using False yx sy(1) by auto
  qed
qed simp_all

lemma filter_merge_list_left:
  "\<forall>x\<in>set xs. P x \<Longrightarrow> \<forall>y\<in>set ys. \<not> P y \<Longrightarrow> filter P (merge_list le xs ys) = xs"
  by (induction le xs ys rule: merge_list.induct) auto

lemma filter_merge_list_right:
  "\<forall>x\<in>set xs. \<not> P x \<Longrightarrow> \<forall>y\<in>set ys. P y \<Longrightarrow> filter P (merge_list le xs ys) = ys"
  by (induction le xs ys rule: merge_list.induct) auto

lemma before_Cons:
  "before (c # cs) a b \<longleftrightarrow> (if c = a then b \<in> set cs else before cs a b)"
  by (simp add: before_def)

lemma before_merge_list:
  "transp le \<Longrightarrow> sorted_wrt le xs \<Longrightarrow> set xs \<inter> set ys = {} \<Longrightarrow>
   a \<in> set xs \<Longrightarrow> b \<in> set ys \<Longrightarrow> le a b \<Longrightarrow> before (merge_list le xs ys) a b"
proof (induction le xs ys rule: merge_list.induct)
  case (4 le x xs y ys)
  have trans: "le u w" if "le u v" "le v w" for u v w
    using "4.prems"(1) that by (rule transpD)
  have sx: "\<forall>z\<in>set xs. le x z" "sorted_wrt le xs"
    using "4.prems"(2) by simp_all
  have dj: "set xs \<inter> set (y # ys) = {}" "set (x # xs) \<inter> set ys = {}" "y \<noteq> a"
    using "4.prems"(3,4) by auto
  show ?case
  proof (cases "le x y")
    case True
    show ?thesis
    proof (cases "x = a")
      case True
      with \<open>le x y\<close> "4.prems"(5) show ?thesis by (auto simp: before_Cons)
    next
      case False
      with "4.prems"(4) have "a \<in> set xs" by simp
      from "4.IH"(1)[OF True "4.prems"(1) sx(2) dj(1) this "4.prems"(5,6)]
      show ?thesis using False True by (simp add: before_Cons)
    qed
  next
    case False
    have xa: "x = a \<or> le x a" using sx(1) "4.prems"(4) by auto
    have "b \<noteq> y"
    proof
      assume "b = y"
      with xa "4.prems"(6) trans[of x a y] have "le x y" by auto
      with False show False by simp
    qed
    with "4.prems"(5) have "b \<in> set ys" by simp
    from "4.IH"(2)[OF False "4.prems"(1,2) dj(2) "4.prems"(4) this "4.prems"(6)]
    show ?thesis using False dj(3) by (simp add: before_Cons)
  qed
qed simp_all

lemma before_set: "before cs a b \<Longrightarrow> b \<in> set cs"
  unfolding before_def by (meson in_set_dropD set_dropWhileD)

lemma before_filter: "before (filter P cs) a b \<Longrightarrow> before cs a b"
proof (induction cs)
  case Nil
  then show ?case by simp
next
  case (Cons c cs)
  show ?case
  proof (cases "P c")
    case True
    with Cons show ?thesis by (auto simp: before_Cons split: if_splits)
  next
    case False
    with Cons have "before cs a b" by simp
    then show ?thesis using before_set[of cs a b] by (simp add: before_Cons)
  qed
qed

lemma before_merge_list_left:
  assumes "before xs a b" and "set xs \<inter> set ys = {}"
  shows "before (merge_list le xs ys) a b"
proof -
  have "filter (\<lambda>c. c \<in> set xs) (merge_list le xs ys) = xs"
    using assms(2) by (intro filter_merge_list_left) auto
  with assms(1) show ?thesis using before_filter by metis
qed

lemma before_merge_list_right:
  assumes "before ys a b" and "set xs \<inter> set ys = {}"
  shows "before (merge_list le xs ys) a b"
proof -
  have "filter (\<lambda>c. c \<in> set ys) (merge_list le xs ys) = ys"
    using assms(2) by (intro filter_merge_list_right) auto
  with assms(1) show ?thesis using before_filter by metis
qed

lemma before_append:
  "before (xs @ ys) a b \<longleftrightarrow> (if a \<in> set xs then before xs a b \<or> b \<in> set ys else before ys a b)"
  by (induction xs) (auto simp: before_Cons)

subsection \<open>The comparison of elements\<close>

lemma ele_le_values:
  "values_of h' = values_of h \<Longrightarrow> ele_le c h' = ele_le c h"
proof -
  assume v: "values_of h' = values_of h"
  have "ele_le c h' a b = ele_le c h a b" for a b
    using fun_cong[OF v, of a] fun_cong[OF v, of b]
    by (cases "h a"; cases "h b"; cases "h' a"; cases "h' b")
      (auto simp: ele_le_def values_of_def cmp_list_ele_def)
  then show ?thesis by (simp add: fun_eq_iff)
qed

lemma ele_le_trans:
  assumes "total_preorder c" and "ele_le c h x y" and "ele_le c h y z"
  shows "ele_le c h x z"
proof -
  from assms(2,3) obtain ex ey ez where e: "h x = Some ex" "h y = Some ey" "h z = Some ez"
    by (auto simp: ele_le_def split: option.splits)
  have tr: "c u v \<le> 0 \<Longrightarrow> c v w \<le> 0 \<Longrightarrow> c u w \<le> 0" for u v w
    using assms(1) unfolding total_preorder_def by blast
  show ?thesis
    using assms(2,3) e tr[of "the (ele_value ex)" "the (ele_value ey)" "the (ele_value ez)"]
    by (auto simp: ele_le_def cmp_list_ele_def split: if_splits)
qed

lemma ele_le_total:
  assumes "total_preorder c" and "h x = Some ex" and "h y = Some ey" and "\<not> ele_le c h x y"
  shows "ele_le c h y x"
proof -
  have "c u v \<le> 0 \<or> c v u \<le> 0" for u v
    using assms(1) unfolding total_preorder_def by blast
  from this[of "the (ele_value ex)" "the (ele_value ey)"] assms(2-) show ?thesis
    by (auto simp: ele_le_def cmp_list_ele_def split: if_splits)
qed

subsection \<open>The loop of the merge\<close>

lemma values_of_store [simp]:
  "h a = Some e \<Longrightarrow> values_of (h(a \<mapsto> e\<lparr>ele_next := p\<rparr>)) = values_of h"
  by (auto simp: values_of_def fun_eq_iff)

lemma advance_step:
  assumes "chain h p (x # xs)" and "chain h t bs" and "x \<notin> set bs"
    and "case nl of None \<Rightarrow> True | Some n \<Rightarrow> h n \<noteq> None \<and> n \<notin> set (x # xs) \<and> n \<notin> set bs"
  shows "\<exists>h1 q. advance h first nl p =
             Inr (h1, (case nl of None \<Rightarrow> Some x | Some n \<Rightarrow> first), Some x, q) \<and>
           chain h1 q xs \<and> chain h1 t bs \<and> h1 x \<noteq> None \<and> x \<notin> set xs \<and>
           values_of h1 = values_of h \<and> (\<forall>a. Some a \<noteq> nl \<longrightarrow> h1 a = h a) \<and>
           (case nl of None \<Rightarrow> True | Some n \<Rightarrow> map_option ele_next (h1 n) = Some (Some x))"
proof -
  from assms(1) obtain e where e: "p = Some x" "h x = Some e" "chain h (ele_next e) xs"
    by (auto split: option.splits)
  have dx: "x \<notin> set xs" using chain_distinct[OF assms(1)] by simp
  show ?thesis
  proof (cases nl)
    case None
    then have "advance h first nl p = Inr (h, Some x, Some x, ele_next e)"
      using e by (simp add: advance_def store_next_def)
    with None e assms(2) dx show ?thesis by simp
  next
    case (Some n)
    with assms(4) obtain en where en: "h n = Some en" "n \<noteq> x" "n \<notin> set xs" "n \<notin> set bs"
      by auto
    let ?h1 = "h(n \<mapsto> en\<lparr>ele_next := Some x\<rparr>)"
    have a: "advance h first nl p = Inr (?h1, first, Some x, ele_next e)"
      using e en Some by (simp add: advance_def store_next_def)
    have c1: "chain ?h1 (ele_next e) xs"
      using e(3) en(3) by (subst chain_frame[of xs ?h1 h]) auto
    have c2: "chain ?h1 t bs"
      using assms(2) en(4) by (subst chain_frame[of bs ?h1 h]) auto
    show ?thesis
      using a c1 c2 dx e(2) en Some by auto
  qed
qed

lemma merge_combine:
  assumes "values_of h1 = values_of h" and "\<forall>a. Some a \<noteq> nl \<longrightarrow> h1 a = h a"
    and "case nl of None \<Rightarrow> True | Some n \<Rightarrow> map_option ele_next (h1 n) = Some (Some x)"
    and "case nl of None \<Rightarrow> True | Some n \<Rightarrow> n \<noteq> x \<and> n \<notin> S"
    and "chain h' (ptr_of ms) ms" and "map_option ele_next (h' x) = Some (ptr_of ms)"
    and "values_of h' = values_of h1" and "\<forall>a. a \<notin> S \<and> a \<noteq> x \<longrightarrow> h' a = h1 a"
  shows "chain h' (Some x) (x # ms) \<and>
         (case nl of None \<Rightarrow> True | Some n \<Rightarrow> map_option ele_next (h' n) = Some (Some x)) \<and>
         values_of h' = values_of h \<and>
         (\<forall>a. a \<notin> S \<and> a \<noteq> x \<and> Some a \<noteq> nl \<longrightarrow> h' a = h a)"
proof -
  from assms(6) obtain e where "h' x = Some e" "ele_next e = ptr_of ms" by auto
  with assms(5) have "chain h' (Some x) (x # ms)" by simp
  moreover have "case nl of None \<Rightarrow> True | Some n \<Rightarrow> map_option ele_next (h' n) = Some (Some x)"
    using assms(3,4,8) by (cases nl) auto
  moreover have "\<forall>a. a \<notin> S \<and> a \<noteq> x \<and> Some a \<noteq> nl \<longrightarrow> h' a = h a"
    using assms(2,8) by auto
  ultimately show ?thesis using assms(1,7) by simp
qed

lemma merge_loop_chain:
  "chain h l as \<Longrightarrow> chain h t bs \<Longrightarrow> set as \<inter> set bs = {} \<Longrightarrow> ele_le c h = le \<Longrightarrow>
   (case nl of None \<Rightarrow> True | Some n \<Rightarrow> h n \<noteq> None \<and> n \<notin> set as \<and> n \<notin> set bs) \<Longrightarrow>
   \<exists>h'. merge_loop c h first nl l t =
          Some (Inr (h', (case nl of None \<Rightarrow> ptr_of (merge_list le as bs) | Some n \<Rightarrow> first))) \<and>
        chain h' (ptr_of (merge_list le as bs)) (merge_list le as bs) \<and>
        (case nl of None \<Rightarrow> True
         | Some n \<Rightarrow> map_option ele_next (h' n) = Some (ptr_of (merge_list le as bs))) \<and>
        values_of h' = values_of h \<and>
        (\<forall>a. a \<notin> set as \<and> a \<notin> set bs \<and> Some a \<noteq> nl \<longrightarrow> h' a = h a)"
proof (induction le as bs arbitrary: h first nl l t rule: merge_list.induct)
  case (1 le)
  then have lt: "l = None" "t = None" by simp_all
  show ?case
  proof (cases nl)
    case None
    with lt show ?thesis by (subst merge_loop.simps) (simp add: store_next_def)
  next
    case (Some n)
    with 1 obtain en where "h n = Some en" by auto
    with Some lt show ?thesis by (subst merge_loop.simps) (auto simp: store_next_def)
  qed
next
  case (2 le x xs)
  then have t: "t = None" and l: "l = Some x" by (auto split: option.splits)
  have nlc: "case nl of None \<Rightarrow> True | Some n \<Rightarrow> h n \<noteq> None \<and> n \<notin> set (x # xs) \<and> n \<notin> set []"
    using "2.prems"(5) by (cases nl) auto
  from advance_step[OF "2.prems"(1) "2.prems"(2) _ nlc, of first] obtain h1 q where s:
    "advance h first nl l = Inr (h1, (case nl of None \<Rightarrow> Some x | Some n \<Rightarrow> first), Some x, q)"
    "chain h1 q xs" "chain h1 t []" "h1 x \<noteq> None" "x \<notin> set xs"
    "values_of h1 = values_of h" "\<forall>a. Some a \<noteq> nl \<longrightarrow> h1 a = h a"
    "case nl of None \<Rightarrow> True | Some n \<Rightarrow> map_option ele_next (h1 n) = Some (Some x)"
    by auto
  have le1: "ele_le c h1 = le" using ele_le_values[OF s(6)] "2.prems"(4) by simp
  from "2.IH"[OF s(2) s(3) _ le1, of "Some x" "case nl of None \<Rightarrow> Some x | Some n \<Rightarrow> first"]
  obtain h' where h':
    "merge_loop c h1 (case nl of None \<Rightarrow> Some x | Some n \<Rightarrow> first) (Some x) q t =
       Some (Inr (h', (case nl of None \<Rightarrow> Some x | Some n \<Rightarrow> first)))"
    "chain h' (ptr_of (merge_list le xs [])) (merge_list le xs [])"
    "map_option ele_next (h' x) = Some (ptr_of (merge_list le xs []))"
    "values_of h' = values_of h1"
    "\<forall>a. a \<notin> set xs \<and> a \<notin> set [] \<and> Some a \<noteq> Some x \<longrightarrow> h' a = h1 a"
    using s(4,5) by auto
  have run: "merge_loop c h first nl l t =
      Some (Inr (h', (case nl of None \<Rightarrow> Some x | Some n \<Rightarrow> first)))"
    using s(1) h'(1) l t by (subst merge_loop.simps) (simp add: takes_l_def)
  have side: "case nl of None \<Rightarrow> True | Some n \<Rightarrow> n \<noteq> x \<and> n \<notin> set xs"
    using "2.prems"(5) by (cases nl) auto
  from merge_combine[OF s(6) s(7) s(8) side h'(2) h'(3) h'(4)] h'(5) run
  show ?case by (cases nl) auto
next
  case (3 le y ys)
  then have l: "l = None" and t: "t = Some y" by (auto split: option.splits)
  have nlc: "case nl of None \<Rightarrow> True | Some n \<Rightarrow> h n \<noteq> None \<and> n \<notin> set (y # ys) \<and> n \<notin> set []"
    using "3.prems"(5) by (cases nl) auto
  from advance_step[OF "3.prems"(2) "3.prems"(1) _ nlc, of first] obtain h1 q where s:
    "advance h first nl t = Inr (h1, (case nl of None \<Rightarrow> Some y | Some n \<Rightarrow> first), Some y, q)"
    "chain h1 q ys" "chain h1 l []" "h1 y \<noteq> None" "y \<notin> set ys"
    "values_of h1 = values_of h" "\<forall>a. Some a \<noteq> nl \<longrightarrow> h1 a = h a"
    "case nl of None \<Rightarrow> True | Some n \<Rightarrow> map_option ele_next (h1 n) = Some (Some y)"
    by auto
  have le1: "ele_le c h1 = le" using ele_le_values[OF s(6)] "3.prems"(4) by simp
  from "3.IH"[OF s(3) s(2) _ le1, of "Some y" "case nl of None \<Rightarrow> Some y | Some n \<Rightarrow> first"]
  obtain h' where h':
    "merge_loop c h1 (case nl of None \<Rightarrow> Some y | Some n \<Rightarrow> first) (Some y) l q =
       Some (Inr (h', (case nl of None \<Rightarrow> Some y | Some n \<Rightarrow> first)))"
    "chain h' (ptr_of (merge_list le [] ys)) (merge_list le [] ys)"
    "map_option ele_next (h' y) = Some (ptr_of (merge_list le [] ys))"
    "values_of h' = values_of h1"
    "\<forall>a. a \<notin> set [] \<and> a \<notin> set ys \<and> Some a \<noteq> Some y \<longrightarrow> h' a = h1 a"
    using s(4,5) by auto
  have run: "merge_loop c h first nl l t =
      Some (Inr (h', (case nl of None \<Rightarrow> Some y | Some n \<Rightarrow> first)))"
    using s(1) h'(1) l t by (subst merge_loop.simps) (simp add: takes_l_def)
  have side: "case nl of None \<Rightarrow> True | Some n \<Rightarrow> n \<noteq> y \<and> n \<notin> set ys"
    using "3.prems"(5) by (cases nl) auto
  from merge_combine[OF s(6) s(7) s(8) side h'(2) h'(3) h'(4)] h'(5) run
  show ?case by (cases nl) auto
next
  case (4 le x xs y ys)
  from "4.prems"(1) obtain ex where l: "l = Some x" and ex: "h x = Some ex"
    by (auto split: option.splits)
  from "4.prems"(2) obtain ey where t: "t = Some y" and ey: "h y = Some ey"
    by (auto split: option.splits)
  have tk: "takes_l c h l t = Inr (le x y)"
    using l t ex ey "4.prems"(4) by (auto simp: takes_l_def ele_le_def)
  show ?case
  proof (cases "le x y")
    case True
    have nlc: "case nl of None \<Rightarrow> True
        | Some n \<Rightarrow> h n \<noteq> None \<and> n \<notin> set (x # xs) \<and> n \<notin> set (y # ys)"
      using "4.prems"(5) by (cases nl) auto
    have xb: "x \<notin> set (y # ys)" using "4.prems"(3) by auto
    from advance_step[OF "4.prems"(1) "4.prems"(2) xb nlc, of first] obtain h1 q where s:
      "advance h first nl l = Inr (h1, (case nl of None \<Rightarrow> Some x | Some n \<Rightarrow> first), Some x, q)"
      "chain h1 q xs" "chain h1 t (y # ys)" "h1 x \<noteq> None" "x \<notin> set xs"
      "values_of h1 = values_of h" "\<forall>a. Some a \<noteq> nl \<longrightarrow> h1 a = h a"
      "case nl of None \<Rightarrow> True | Some n \<Rightarrow> map_option ele_next (h1 n) = Some (Some x)"
      by auto
    have le1: "ele_le c h1 = le" using ele_le_values[OF s(6)] "4.prems"(4) by simp
    have dj: "set xs \<inter> set (y # ys) = {}" using "4.prems"(3) by auto
    from "4.IH"(1)[OF True s(2) s(3) dj le1, of "Some x" "case nl of None \<Rightarrow> Some x | Some n \<Rightarrow> first"]
    obtain h' where h':
      "merge_loop c h1 (case nl of None \<Rightarrow> Some x | Some n \<Rightarrow> first) (Some x) q t =
         Some (Inr (h', (case nl of None \<Rightarrow> Some x | Some n \<Rightarrow> first)))"
      "chain h' (ptr_of (merge_list le xs (y # ys))) (merge_list le xs (y # ys))"
      "map_option ele_next (h' x) = Some (ptr_of (merge_list le xs (y # ys)))"
      "values_of h' = values_of h1"
      "\<forall>a. a \<notin> set xs \<and> a \<notin> set (y # ys) \<and> Some a \<noteq> Some x \<longrightarrow> h' a = h1 a"
      using s(4,5) xb by auto
    have run: "merge_loop c h first nl l t =
        Some (Inr (h', (case nl of None \<Rightarrow> Some x | Some n \<Rightarrow> first)))"
      using s(1) h'(1) l t tk True by (subst merge_loop.simps) simp
    have side: "case nl of None \<Rightarrow> True | Some n \<Rightarrow> n \<noteq> x \<and> n \<notin> set xs \<union> set (y # ys)"
      using "4.prems"(5) by (cases nl) auto
    have fr: "\<forall>a. a \<notin> set xs \<union> set (y # ys) \<and> a \<noteq> x \<longrightarrow> h' a = h1 a"
      using h'(5) by auto
    from merge_combine[OF s(6) s(7) s(8) side h'(2) h'(3) h'(4) fr] run True
    show ?thesis by (cases nl) auto
  next
    case False
    have nlc: "case nl of None \<Rightarrow> True
        | Some n \<Rightarrow> h n \<noteq> None \<and> n \<notin> set (y # ys) \<and> n \<notin> set (x # xs)"
      using "4.prems"(5) by (cases nl) auto
    have yb: "y \<notin> set (x # xs)" using "4.prems"(3) by auto
    from advance_step[OF "4.prems"(2) "4.prems"(1) yb nlc, of first] obtain h1 q where s:
      "advance h first nl t = Inr (h1, (case nl of None \<Rightarrow> Some y | Some n \<Rightarrow> first), Some y, q)"
      "chain h1 q ys" "chain h1 l (x # xs)" "h1 y \<noteq> None" "y \<notin> set ys"
      "values_of h1 = values_of h" "\<forall>a. Some a \<noteq> nl \<longrightarrow> h1 a = h a"
      "case nl of None \<Rightarrow> True | Some n \<Rightarrow> map_option ele_next (h1 n) = Some (Some y)"
      by auto
    have le1: "ele_le c h1 = le" using ele_le_values[OF s(6)] "4.prems"(4) by simp
    have dj: "set (x # xs) \<inter> set ys = {}" using "4.prems"(3) by auto
    from "4.IH"(2)[OF False s(3) s(2) dj le1, of "Some y" "case nl of None \<Rightarrow> Some y | Some n \<Rightarrow> first"]
    obtain h' where h':
      "merge_loop c h1 (case nl of None \<Rightarrow> Some y | Some n \<Rightarrow> first) (Some y) l q =
         Some (Inr (h', (case nl of None \<Rightarrow> Some y | Some n \<Rightarrow> first)))"
      "chain h' (ptr_of (merge_list le (x # xs) ys)) (merge_list le (x # xs) ys)"
      "map_option ele_next (h' y) = Some (ptr_of (merge_list le (x # xs) ys))"
      "values_of h' = values_of h1"
      "\<forall>a. a \<notin> set (x # xs) \<and> a \<notin> set ys \<and> Some a \<noteq> Some y \<longrightarrow> h' a = h1 a"
      using s(4,5) yb by auto
    have run: "merge_loop c h first nl l t =
        Some (Inr (h', (case nl of None \<Rightarrow> Some y | Some n \<Rightarrow> first)))"
      using s(1) h'(1) l t tk False by (subst merge_loop.simps) simp
    have side: "case nl of None \<Rightarrow> True | Some n \<Rightarrow> n \<noteq> y \<and> n \<notin> set (x # xs) \<union> set ys"
      using "4.prems"(5) by (cases nl) auto
    have fr: "\<forall>a. a \<notin> set (x # xs) \<union> set ys \<and> a \<noteq> y \<longrightarrow> h' a = h1 a"
      using h'(5) by auto
    from merge_combine[OF s(6) s(7) s(8) side h'(2) h'(3) h'(4) fr] run False
    show ?thesis by (cases nl) auto
  qed
qed

lemma merge_chain:
  assumes "chain h l as" and "chain h t bs" and "set as \<inter> set bs = {}"
  shows "\<exists>h'. merge c h l t = Some (Inr (h', ptr_of (merge_list (ele_le c h) as bs))) \<and>
           chain h' (ptr_of (merge_list (ele_le c h) as bs)) (merge_list (ele_le c h) as bs) \<and>
           values_of h' = values_of h \<and>
           (\<forall>a. a \<notin> set as \<and> a \<notin> set bs \<longrightarrow> h' a = h a)"
proof -
  have nl: "case None :: ptr of None \<Rightarrow> True | Some n \<Rightarrow> h n \<noteq> None \<and> n \<notin> set as \<and> n \<notin> set bs"
    by simp
  from merge_loop_chain[OF assms refl nl, of c None] show ?thesis
    unfolding merge_def by simp
qed

subsection \<open>The comparator of the examples is a total preorder\<close>

lemma lex_cmp_total: "lex_cmp x y \<le> 0 \<or> lex_cmp y x \<le> 0"
  by (induction x y rule: lex_cmp.induct) auto

lemma lex_cmp_trans: "lex_cmp x y \<le> 0 \<Longrightarrow> lex_cmp y z \<le> 0 \<Longrightarrow> lex_cmp x z \<le> 0"
proof (induction x arbitrary: y z)
  case Nil
  then show ?case by (cases z) auto
next
  case (Cons a x)
  then obtain b y' where y: "y = b # y'" by (cases y) auto
  with Cons.prems obtain d z' where z: "z = d # z'" by (cases z) auto
  show ?case
    using Cons.prems Cons.IH[of y' z'] unfolding y z
    by (auto split: if_splits)
qed

lemma total_preorder_lex_cmp: "total_preorder lex_cmp"
  unfolding total_preorder_def using lex_cmp_total lex_cmp_trans by blast

text \<open>
  C6. For two disjoint chains, each sorted for the comparator (a total preorder),
  \<open>__merge\<close> returns the head of one chain that is sorted, holds exactly the elements
  of both, keeps the order of each, and puts an element of the first chain before every
  element of the second that it is at most (so before every one it ties with); no element
  is created or freed, no value changes, and no element outside the two chains is touched.
\<close>

theorem merge_sorted_chains:
  assumes "total_preorder c" and "chain h l as" and "chain h t bs"
    and "set as \<inter> set bs = {}"
    and "sorted_wrt (ele_le c h) as" and "sorted_wrt (ele_le c h) bs"
  shows "\<exists>h' cs. merge c h l t = Some (Inr (h', ptr_of cs)) \<and> chain h' (ptr_of cs) cs \<and>
           sorted_wrt (ele_le c h') cs \<and> mset cs = mset as + mset bs \<and>
           filter (\<lambda>a. a \<in> set as) cs = as \<and> filter (\<lambda>b. b \<in> set bs) cs = bs \<and>
           (\<forall>a\<in>set as. \<forall>b\<in>set bs. ele_le c h a b \<longrightarrow> before cs a b) \<and>
           dom h' = dom h \<and> values_of h' = values_of h \<and>
           (\<forall>a. a \<notin> set as \<and> a \<notin> set bs \<longrightarrow> h' a = h a)"
proof -
  define le where "le = ele_le c h"
  define cs where "cs = merge_list le as bs"
  from merge_chain[OF assms(2,3,4), of c] obtain h' where h':
    "merge c h l t = Some (Inr (h', ptr_of cs))" "chain h' (ptr_of cs) cs"
    "values_of h' = values_of h" "\<forall>a. a \<notin> set as \<and> a \<notin> set bs \<longrightarrow> h' a = h a"
    unfolding cs_def le_def by blast
  have tp: "transp le"
    unfolding le_def by (rule transpI) (rule ele_le_trans[OF assms(1)])
  have total: "\<forall>x\<in>set as. \<forall>y\<in>set bs. \<not> le x y \<longrightarrow> le y x"
  proof (intro ballI impI)
    fix x y assume xy: "x \<in> set as" "y \<in> set bs" "\<not> le x y"
    from chain_dom[OF assms(2) xy(1)] obtain ex where ex: "h x = Some ex" ..
    from chain_dom[OF assms(3) xy(2)] obtain ey where ey: "h y = Some ey" ..
    show "le y x"
      using ele_le_total[OF assms(1) ex ey] xy(3) unfolding le_def by simp
  qed
  have sa: "sorted_wrt le as" and sb: "sorted_wrt le bs"
    using assms(5,6) by (simp_all add: le_def)
  have "sorted_wrt le cs"
    unfolding cs_def by (rule sorted_merge_list[OF tp total sa sb])
  moreover have "ele_le c h' = le"
    using ele_le_values[OF h'(3), of c] by (simp add: le_def)
  ultimately have srt: "sorted_wrt (ele_le c h') cs" by simp
  have ms: "mset cs = mset as + mset bs" by (simp add: cs_def)
  have fl: "filter (\<lambda>a. a \<in> set as) cs = as"
    unfolding cs_def by (rule filter_merge_list_left) (use assms(4) in auto)
  have fr: "filter (\<lambda>b. b \<in> set bs) cs = bs"
    unfolding cs_def by (rule filter_merge_list_right) (use assms(4) in auto)
  have bf: "\<forall>a\<in>set as. \<forall>b\<in>set bs. ele_le c h a b \<longrightarrow> before cs a b"
  proof (intro ballI impI)
    fix a b assume "a \<in> set as" "b \<in> set bs" "ele_le c h a b"
    then show "before cs a b"
      unfolding cs_def using before_merge_list[OF tp sa assms(4)]
      by (simp add: le_def)
  qed
  have dm: "dom h' = dom h" by (rule values_of_dom[OF h'(3)])
  show ?thesis
    apply (rule exI[of _ h'])
    apply (rule exI[of _ cs])
    apply (intro conjI)
    apply (rule h'(1))
    apply (rule h'(2))
    apply (rule srt)
    apply (rule ms)
    apply (rule fl)
    apply (rule fr)
    apply (rule bf)
    apply (rule dm)
    apply (rule h'(3))
    apply (rule h'(4))
    done
qed

lemma merge_example:
  "merge lex_cmp heap_ac_a (Some 1) (Some 2) = Some (Inr (heap_ac_a_merged, Some 1))"
  by (simp add: heap_ac_a_def heap_ac_a_merged_def merge_def merge_loop.simps takes_l_def
      advance_def store_next_def cmp_list_ele_def fun_upd_twist)

theorem merge_sorted_chains_witness:
  "total_preorder lex_cmp \<and> chain heap_ac_a (Some 1) [1, 3] \<and> chain heap_ac_a (Some 2) [2] \<and>
   sorted_wrt (ele_le lex_cmp heap_ac_a) [1, 3] \<and>
   merge lex_cmp heap_ac_a (Some 1) (Some 2) = Some (Inr (heap_ac_a_merged, Some 1)) \<and>
   chain heap_ac_a_merged (Some 1) [1, 2, 3] \<and>
   sorted_wrt (ele_le lex_cmp heap_ac_a_merged) [1, 2, 3] \<and> before [1, 2, 3] (1::nat) 2"
proof -
  have c1: "chain heap_ac_a (Some 1) [1, 3]" and c2: "chain heap_ac_a (Some 2) [2]"
    by (simp_all add: heap_ac_a_def)
  have s1: "sorted_wrt (ele_le lex_cmp heap_ac_a) [1, 3]"
    and s2: "sorted_wrt (ele_le lex_cmp heap_ac_a) [2]"
    by (simp_all add: heap_ac_a_def ele_le_def cmp_list_ele_def)
  have dj: "set [1, 3] \<inter> set [2::nat] = {}" by simp
  from merge_sorted_chains[OF total_preorder_lex_cmp c1 c2 dj s1 s2]
  obtain h' cs where r: "merge lex_cmp heap_ac_a (Some 1) (Some 2) = Some (Inr (h', ptr_of cs))"
    "chain h' (ptr_of cs) cs" "sorted_wrt (ele_le lex_cmp h') cs"
    "\<forall>a\<in>set [1, 3]. \<forall>b\<in>set [2]. ele_le lex_cmp heap_ac_a a b \<longrightarrow> before cs a b"
    by blast
  from r(1) have h': "h' = heap_ac_a_merged" and p: "ptr_of cs = Some 1"
    unfolding merge_example by simp_all
  have c3: "chain heap_ac_a_merged (Some 1) [1, 2, 3]"
    by (simp add: heap_ac_a_merged_def)
  from r(2) have cs: "cs = [1, 2, 3]"
    unfolding h' p by (rule chain_unique[OF _ c3])
  have "ele_le lex_cmp heap_ac_a 1 2"
    by (simp add: heap_ac_a_def ele_le_def cmp_list_ele_def)
  with r(4) have b: "before cs 1 2" by simp
  show ?thesis
    apply (intro conjI)
    apply (rule total_preorder_lex_cmp)
    apply (rule c1)
    apply (rule c2)
    apply (rule s1)
    apply (rule merge_example)
    apply (rule c3)
    apply (rule r(3)[unfolded h' cs])
    apply (rule b[unfolded cs])
    done
qed

section \<open>Correctness of the sorts\<close>

subsection \<open>Merging two runs\<close>

lemma merge_run_list:
  assumes "total_preorder c" and "ele_le c h = le" and "chain h l as" and "chain h t bs"
    and "set as \<inter> set bs = {}" and "sorted_wrt le as" and "sorted_wrt le bs"
  shows "\<exists>h'. merge c h l t = Some (Inr (h', ptr_of (merge_list le as bs))) \<and>
           chain h' (ptr_of (merge_list le as bs)) (merge_list le as bs) \<and>
           sorted_wrt le (merge_list le as bs) \<and> ele_le c h' = le \<and>
           values_of h' = values_of h \<and> (\<forall>a. a \<notin> set as \<and> a \<notin> set bs \<longrightarrow> h' a = h a)"
proof -
  define cs where "cs = merge_list le as bs"
  from merge_chain[OF assms(3,4,5), of c] obtain h' where h':
    "merge c h l t = Some (Inr (h', ptr_of cs))" "chain h' (ptr_of cs) cs"
    "values_of h' = values_of h" "\<forall>a. a \<notin> set as \<and> a \<notin> set bs \<longrightarrow> h' a = h a"
    unfolding cs_def assms(2) by blast
  have tp: "transp le"
    unfolding assms(2)[symmetric] by (rule transpI) (rule ele_le_trans[OF assms(1)])
  have total: "\<forall>x\<in>set as. \<forall>y\<in>set bs. \<not> le x y \<longrightarrow> le y x"
  proof (intro ballI impI)
    fix x y assume xy: "x \<in> set as" "y \<in> set bs" "\<not> le x y"
    from chain_dom[OF assms(3) xy(1)] obtain ex where ex: "h x = Some ex" ..
    from chain_dom[OF assms(4) xy(2)] obtain ey where ey: "h y = Some ey" ..
    show "le y x"
      using ele_le_total[OF assms(1) ex ey] xy(3) unfolding assms(2) by simp
  qed
  have srt: "sorted_wrt le cs"
    unfolding cs_def by (rule sorted_merge_list[OF tp total assms(6,7)])
  have le': "ele_le c h' = le"
    using ele_le_values[OF h'(3), of c] assms(2) by simp
  show ?thesis
    using h' srt le' unfolding cs_def by blast
qed

lemma merge_run:
  assumes "total_preorder c" and "ele_le c h = le" and "chain h l as" and "chain h t bs"
    and "set as \<inter> set bs = {}" and "sorted_wrt le as" and "sorted_wrt le bs"
  shows "\<exists>h' cs. merge c h l t = Some (Inr (h', ptr_of cs)) \<and> chain h' (ptr_of cs) cs \<and>
           sorted_wrt le cs \<and> set cs = set as \<union> set bs \<and> ele_le c h' = le \<and>
           values_of h' = values_of h \<and> (\<forall>a. a \<notin> set as \<and> a \<notin> set bs \<longrightarrow> h' a = h a)"
  using merge_run_list[OF assms] set_merge_list[of le as bs] by metis

subsection \<open>The loops of the bottom-up sort\<close>

lemma run_nodes_iff: "a \<in> run_nodes lo R \<longleftrightarrow> (\<exists>j. lo \<le> j \<and> j < 32 \<and> a \<in> set (R j))"
  by (simp add: run_nodes_def)

lemma runs_inv_frame:
  assumes "runs_inv lo le h arr R" and "\<forall>a. a \<in> run_nodes lo R \<longrightarrow> h' a = h a"
  shows "runs_inv lo le h' arr R"
proof -
  have "chain h' (arr ! j) (R j)" if "lo \<le> j" "j < 32" for j
  proof -
    have "\<forall>a\<in>set (R j). h' a = h a" using assms(2) that by (auto simp: run_nodes_iff)
    then have "chain h' (arr ! j) (R j) = chain h (arr ! j) (R j)" by (rule chain_frame)
    with assms(1) that show ?thesis by (simp add: runs_inv_def)
  qed
  with assms(1) show ?thesis by (simp add: runs_inv_def)
qed

lemma runs_inv_clear:
  assumes "runs_inv lo le h arr R" and "i < 32"
  shows "runs_inv lo le h (arr[i := None]) (R(i := []))"
  using assms by (auto simp: runs_inv_def nth_list_update)

lemma runs_inv_store:
  assumes "runs_inv lo le h arr R" and "i < 32" and "chain h p rs" and "sorted_wrt le rs"
    and "\<forall>j. lo \<le> j \<and> j < 32 \<longrightarrow> set (R j) \<inter> set rs = {}"
  shows "runs_inv lo le h (arr[i := p]) (R(i := rs))"
  using assms by (auto simp: runs_inv_def nth_list_update)

lemma run_nodes_clear:
  "i < 32 \<Longrightarrow> set (R i) \<union> run_nodes 0 (R(i := [])) = run_nodes 0 R"
  by (auto simp: run_nodes_iff split: if_splits)

lemma carry_loop_runs:
  assumes tp: "total_preorder c"
  shows "ele_le c h = le \<Longrightarrow> runs_inv 0 le h arr R \<Longrightarrow> chain h result rs \<Longrightarrow>
     sorted_wrt le rs \<Longrightarrow> (\<forall>j<32. set (R j) \<inter> set rs = {}) \<Longrightarrow> i \<le> 32 \<Longrightarrow>
     \<exists>h' arr' R' rs' i'. carry_loop c h arr result i = Some (Inr (h', arr', ptr_of rs', i')) \<and>
        ele_le c h' = le \<and> runs_inv 0 le h' arr' R' \<and> chain h' (ptr_of rs') rs' \<and>
        sorted_wrt le rs' \<and> (\<forall>j<32. set (R' j) \<inter> set rs' = {}) \<and>
        set rs' \<union> run_nodes 0 R' = set rs \<union> run_nodes 0 R \<and>
        i \<le> i' \<and> i' \<le> 32 \<and> (\<forall>j. i \<le> j \<and> j < i' \<longrightarrow> arr' ! j = None) \<and>
        (i' < 32 \<longrightarrow> arr' ! i' = None) \<and> (\<forall>j<i. arr' ! j = arr ! j) \<and>
        values_of h' = values_of h \<and>
        (\<forall>a. a \<notin> set rs \<and> a \<notin> run_nodes 0 R \<longrightarrow> h' a = h a)"
proof (induction "32 - i" arbitrary: h arr R result rs i)
  case 0
  then have i: "i = 32" by simp
  have "carry_loop c h arr result i = Some (Inr (h, arr, ptr_of rs, i))"
    using i chain_ptr_of[OF "0.prems"(3)] by (subst carry_loop.simps) simp
  moreover have "chain h (ptr_of rs) rs"
    using "0.prems"(3) chain_ptr_of[OF "0.prems"(3)] by simp
  ultimately show ?case
    using "0.prems"(1,2,4,5) i
    by (intro exI[of _ h] exI[of _ arr] exI[of _ R] exI[of _ rs] exI[of _ i]) auto
next
  case (Suc n)
  then have i: "i < 32" by simp
  show ?case
  proof (cases "arr ! i = None")
    case True
    have "carry_loop c h arr result i = Some (Inr (h, arr, ptr_of rs, i))"
      using True chain_ptr_of[OF Suc.prems(3)] by (subst carry_loop.simps) simp
    moreover have "chain h (ptr_of rs) rs"
      using Suc.prems(3) chain_ptr_of[OF Suc.prems(3)] by simp
    ultimately show ?thesis
      using Suc.prems(1,2,4,5) True i
      by (intro exI[of _ h] exI[of _ arr] exI[of _ R] exI[of _ rs] exI[of _ i]) auto
  next
    case False
    from Suc.prems(2) i have ci: "chain h (arr ! i) (R i)" and si: "sorted_wrt le (R i)"
      and len: "length arr = 32"
      by (simp_all add: runs_inv_def)
    have dj: "set rs \<inter> set (R i) = {}" using Suc.prems(5) i by auto
    from merge_run[OF tp Suc.prems(1) Suc.prems(3) ci dj Suc.prems(4) si]
    obtain h1 cs where m:
      "merge c h result (arr ! i) = Some (Inr (h1, ptr_of cs))" "chain h1 (ptr_of cs) cs"
      "sorted_wrt le cs" "set cs = set rs \<union> set (R i)" "ele_le c h1 = le"
      "values_of h1 = values_of h" "\<forall>a. a \<notin> set rs \<and> a \<notin> set (R i) \<longrightarrow> h1 a = h a"
      by blast
    define arr1 where "arr1 = arr[i := None]"
    define R1 where "R1 = R(i := [])"
    have pw: "set (R j) \<inter> set (R i) = {}" if "j < 32" "j \<noteq> i" for j
      using Suc.prems(2) i that by (simp add: runs_inv_def)
    have "runs_inv 0 le h arr1 R1"
      unfolding arr1_def R1_def by (rule runs_inv_clear[OF Suc.prems(2) i])
    moreover have "\<forall>a. a \<in> run_nodes 0 R1 \<longrightarrow> h1 a = h a"
    proof (intro allI impI)
      fix a assume "a \<in> run_nodes 0 R1"
      then obtain j where j: "j < 32" "j \<noteq> i" "a \<in> set (R j)"
        by (auto simp: run_nodes_iff R1_def split: if_splits)
      then have "a \<notin> set rs" "a \<notin> set (R i)"
        using Suc.prems(5) pw[OF j(1,2)] by auto
      with m(7) show "h1 a = h a" by simp
    qed
    ultimately have inv1: "runs_inv 0 le h1 arr1 R1" by (rule runs_inv_frame)
    have dj1: "\<forall>j<32. set (R1 j) \<inter> set cs = {}"
    proof (intro allI impI)
      fix j assume "j < (32::nat)"
      then show "set (R1 j) \<inter> set cs = {}"
        using Suc.prems(5) pw[of j] m(4) by (cases "j = i") (auto simp: R1_def)
    qed
    have n: "n = 32 - (i + 1)" and i1: "i + 1 \<le> 32" using Suc.hyps(2) by simp_all
    from Suc.hyps(1)[OF n m(5) inv1 m(2) m(3) dj1 i1]
    obtain h' arr' R' rs' i' where r:
      "carry_loop c h1 arr1 (ptr_of cs) (i + 1) = Some (Inr (h', arr', ptr_of rs', i'))"
      "ele_le c h' = le" "runs_inv 0 le h' arr' R'" "chain h' (ptr_of rs') rs'"
      "sorted_wrt le rs'" "\<forall>j<32. set (R' j) \<inter> set rs' = {}"
      "set rs' \<union> run_nodes 0 R' = set cs \<union> run_nodes 0 R1"
      "i + 1 \<le> i'" "i' \<le> 32" "\<forall>j. i + 1 \<le> j \<and> j < i' \<longrightarrow> arr' ! j = None"
      "i' < 32 \<longrightarrow> arr' ! i' = None" "\<forall>j<i + 1. arr' ! j = arr1 ! j"
      "values_of h' = values_of h1"
      "\<forall>a. a \<notin> set cs \<and> a \<notin> run_nodes 0 R1 \<longrightarrow> h' a = h1 a"
      by blast
    have run: "carry_loop c h arr result i = Some (Inr (h', arr', ptr_of rs', i'))"
      using i False m(1) r(1) by (subst carry_loop.simps) (simp add: arr1_def)
    have un: "set rs' \<union> run_nodes 0 R' = set rs \<union> run_nodes 0 R"
      using r(7) m(4) run_nodes_clear[OF i, of R] by (auto simp: R1_def)
    have ai: "arr' ! i = None"
      using r(12) len i by (simp add: arr1_def)
    have cl: "\<forall>j. i \<le> j \<and> j < i' \<longrightarrow> arr' ! j = None"
    proof (intro allI impI)
      fix j assume "i \<le> j \<and> j < i'"
      then show "arr' ! j = None" using ai r(10) by (cases "j = i") auto
    qed
    have keep: "\<forall>j<i. arr' ! j = arr ! j"
      using r(12) by (simp add: arr1_def)
    have vals: "values_of h' = values_of h" using r(13) m(6) by simp
    have fr: "\<forall>a. a \<notin> set rs \<and> a \<notin> run_nodes 0 R \<longrightarrow> h' a = h a"
    proof (intro allI impI)
      fix a assume a: "a \<notin> set rs \<and> a \<notin> run_nodes 0 R"
      then have 1: "a \<notin> set (R i)" using i by (auto simp: run_nodes_iff)
      with a have "a \<notin> set cs" using m(4) by simp
      moreover have "a \<notin> run_nodes 0 R1"
        using a by (auto simp: run_nodes_iff R1_def split: if_splits)
      ultimately have "h' a = h1 a" using r(14) by simp
      with m(7) a 1 show "h' a = h a" by simp
    qed
    have ii: "i \<le> i'" using r(8) by simp
    show ?thesis
      using run r(2,3,4,5,6) un ii r(9) cl r(11) keep vals fr by blast
  qed
qed

lemma run_nodes_store:
  assumes "i < 32" and "R i = []"
  shows "run_nodes 0 (R(i := rs)) = set rs \<union> run_nodes 0 R"
proof (rule set_eqI)
  fix a
  show "a \<in> run_nodes 0 (R(i := rs)) \<longleftrightarrow> a \<in> set rs \<union> run_nodes 0 R"
  proof
    assume "a \<in> run_nodes 0 (R(i := rs))"
    then obtain j where j: "j < 32" "a \<in> set ((R(i := rs)) j)"
      by (auto simp: run_nodes_iff)
    then show "a \<in> set rs \<union> run_nodes 0 R"
      by (cases "j = i") (auto simp: run_nodes_iff)
  next
    assume "a \<in> set rs \<union> run_nodes 0 R"
    then consider "a \<in> set rs" | j where "j < 32" "a \<in> set (R j)"
      by (auto simp: run_nodes_iff)
    then show "a \<in> run_nodes 0 (R(i := rs))"
    proof cases
      case 1
      with assms(1) have "i < 32 \<and> a \<in> set ((R(i := rs)) i)" by simp
      then show ?thesis unfolding run_nodes_iff by blast
    next
      case 2
      with assms(2) have "j \<noteq> i" by auto
      with 2 have "j < 32 \<and> a \<in> set ((R(i := rs)) j)" by simp
      then show ?thesis unfolding run_nodes_iff by blast
    qed
  qed
qed

lemma consume_loop_runs:
  assumes tp: "total_preorder c"
  shows "ele_le c h = le \<Longrightarrow> runs_inv 0 le h arr R \<Longrightarrow> chain h result rest \<Longrightarrow>
     (\<forall>j<32. set (R j) \<inter> set rest = {}) \<Longrightarrow>
     \<exists>h' arr' R'. consume_loop c h arr result = Some (Inr (h', arr', None)) \<and>
        ele_le c h' = le \<and> runs_inv 0 le h' arr' R' \<and>
        run_nodes 0 R' = set rest \<union> run_nodes 0 R \<and> values_of h' = values_of h \<and>
        (\<forall>a. a \<notin> set rest \<and> a \<notin> run_nodes 0 R \<longrightarrow> h' a = h a)"
proof (induction rest arbitrary: h arr R result)
  case Nil
  then have "consume_loop c h arr result = Some (Inr (h, arr, None))"
    by (subst consume_loop.simps) simp
  with Nil show ?case
    by (intro exI[of _ h] exI[of _ arr] exI[of _ R]) simp
next
  case (Cons r rest)
  from Cons.prems(3) obtain e where e: "result = Some r" "h r = Some e" "chain h (ele_next e) rest"
    by (auto split: option.splits)
  have r_rest: "r \<notin> set rest" using chain_distinct[OF Cons.prems(3)] by simp
  have r_runs: "r \<notin> run_nodes 0 R" using Cons.prems(4) by (auto simp: run_nodes_iff)
  have rest_runs: "a \<notin> run_nodes 0 R" if "a \<in> set rest" for a
    using Cons.prems(4) that by (auto simp: run_nodes_iff)
  define h1 where "h1 = h(r \<mapsto> e\<lparr>ele_next := None\<rparr>)"
  have v1: "values_of h1 = values_of h" using e(2) by (simp add: h1_def)
  have le1: "ele_le c h1 = le" using ele_le_values[OF v1, of c] Cons.prems(1) by simp
  have inv1: "runs_inv 0 le h1 arr R"
  proof (rule runs_inv_frame[OF Cons.prems(2)])
    show "\<forall>a. a \<in> run_nodes 0 R \<longrightarrow> h1 a = h a"
      using r_runs by (auto simp: h1_def)
  qed
  have c1: "chain h1 (Some r) [r]" by (simp add: h1_def)
  have s1: "sorted_wrt le [r]" by simp
  have d1: "\<forall>j<32. set (R j) \<inter> set [r] = {}" using Cons.prems(4) by auto
  from carry_loop_runs[OF tp le1 inv1 c1 s1 d1, of 0]
  obtain h2 arr2 R2 rs2 i' where k:
    "carry_loop c h1 arr (Some r) 0 = Some (Inr (h2, arr2, ptr_of rs2, i'))"
    "ele_le c h2 = le" "runs_inv 0 le h2 arr2 R2" "chain h2 (ptr_of rs2) rs2"
    "sorted_wrt le rs2" "\<forall>j<32. set (R2 j) \<inter> set rs2 = {}"
    "set rs2 \<union> run_nodes 0 R2 = set [r] \<union> run_nodes 0 R"
    "i' \<le> 32" "\<forall>j. 0 \<le> j \<and> j < i' \<longrightarrow> arr2 ! j = None"
    "i' < 32 \<longrightarrow> arr2 ! i' = None"
    "values_of h2 = values_of h1"
    "\<forall>a. a \<notin> set [r] \<and> a \<notin> run_nodes 0 R \<longrightarrow> h2 a = h1 a"
    by auto
  define i1 where "i1 = (if i' = 32 then i' - 1 else i')"
  have i1: "i1 < 32" using k(8) by (auto simp: i1_def)
  have a1: "arr2 ! i1 = None"
  proof (cases "i' = 32")
    case True
    then have "0 \<le> i1 \<and> i1 < i'" by (simp add: i1_def)
    with k(9) show ?thesis by blast
  next
    case False
    with k(8,10) show ?thesis by (simp add: i1_def)
  qed
  have "chain h2 (arr2 ! i1) (R2 i1)" using k(3) i1 by (simp add: runs_inv_def)
  with a1 have e1: "R2 i1 = []" by simp
  define arr3 where "arr3 = arr2[i1 := ptr_of rs2]"
  define R3 where "R3 = R2(i1 := rs2)"
  have dj2: "\<forall>j. 0 \<le> j \<and> j < 32 \<longrightarrow> set (R2 j) \<inter> set rs2 = {}" using k(6) by simp
  have inv3: "runs_inv 0 le h2 arr3 R3"
    unfolding arr3_def R3_def by (rule runs_inv_store[OF k(3) i1 k(4) k(5) dj2])
  have n3: "run_nodes 0 R3 = insert r (run_nodes 0 R)"
    using run_nodes_store[of i1 R2 rs2, OF i1 e1] k(7) by (simp add: R3_def)
  have "\<forall>a\<in>set rest. h2 a = h a"
  proof
    fix a assume a: "a \<in> set rest"
    then have "a \<noteq> r" using r_rest by auto
    with a rest_runs k(12) have "h2 a = h1 a" by simp
    with \<open>a \<noteq> r\<close> show "h2 a = h a" by (simp add: h1_def)
  qed
  then have "chain h2 (ele_next e) rest = chain h (ele_next e) rest" by (rule chain_frame)
  with e(3) have c3: "chain h2 (ele_next e) rest" by simp
  have d3: "\<forall>j<32. set (R3 j) \<inter> set rest = {}"
  proof (intro allI impI)
    fix j assume j: "j < (32::nat)"
    have "set (R3 j) \<subseteq> run_nodes 0 R3" using j by (auto simp: run_nodes_iff)
    then show "set (R3 j) \<inter> set rest = {}"
      unfolding n3 using r_rest rest_runs by auto
  qed
  from Cons.IH[OF k(2) inv3 c3 d3]
  obtain h' arr' R' where r:
    "consume_loop c h2 arr3 (ele_next e) = Some (Inr (h', arr', None))"
    "ele_le c h' = le" "runs_inv 0 le h' arr' R'"
    "run_nodes 0 R' = set rest \<union> run_nodes 0 R3" "values_of h' = values_of h2"
    "\<forall>a. a \<notin> set rest \<and> a \<notin> run_nodes 0 R3 \<longrightarrow> h' a = h2 a"
    by blast
  have run: "consume_loop c h arr result = Some (Inr (h', arr', None))"
    using e(1,2) k(1) a1 r(1)
    by (subst consume_loop.simps) (simp add: h1_def[symmetric] Let_def i1_def[symmetric] arr3_def)
  have un: "run_nodes 0 R' = set (r # rest) \<union> run_nodes 0 R"
    using r(4) n3 by auto
  have vals: "values_of h' = values_of h" using r(5) k(11) v1 by simp
  have fr: "\<forall>a. a \<notin> set (r # rest) \<and> a \<notin> run_nodes 0 R \<longrightarrow> h' a = h a"
  proof (intro allI impI)
    fix a assume a: "a \<notin> set (r # rest) \<and> a \<notin> run_nodes 0 R"
    then have "h' a = h2 a" using r(6) n3 by simp
    also have "h2 a = h1 a" using k(12) a by simp
    also have "h1 a = h a" using a by (simp add: h1_def)
    finally show "h' a = h a" .
  qed
  show ?case
    using run r(2,3) un vals fr by blast
qed

lemma runs_inv_Suc: "runs_inv i le h arr R \<Longrightarrow> runs_inv (Suc i) le h arr R"
  by (simp add: runs_inv_def)

lemma run_nodes_Suc: "i < 32 \<Longrightarrow> run_nodes i R = set (R i) \<union> run_nodes (Suc i) R"
proof (rule set_eqI)
  fix a assume i: "i < 32"
  have "(\<exists>j. i \<le> j \<and> j < 32 \<and> a \<in> set (R j)) \<longleftrightarrow>
        a \<in> set (R i) \<or> (\<exists>j. Suc i \<le> j \<and> j < 32 \<and> a \<in> set (R j))"
    using i by (metis Suc_leI le_neq_implies_less order_refl Suc_leD)
  then show "a \<in> run_nodes i R \<longleftrightarrow> a \<in> set (R i) \<union> run_nodes (Suc i) R"
    by (simp add: run_nodes_iff)
qed

lemma collect_loop_runs:
  assumes tp: "total_preorder c"
  shows "ele_le c h = le \<Longrightarrow> runs_inv i le h arr R \<Longrightarrow> chain h result rs \<Longrightarrow>
     sorted_wrt le rs \<Longrightarrow> (\<forall>j. i \<le> j \<and> j < 32 \<longrightarrow> set (R j) \<inter> set rs = {}) \<Longrightarrow> i \<le> 32 \<Longrightarrow>
     \<exists>h' cs. collect_loop c h arr result i = Some (Inr (h', ptr_of cs)) \<and>
        chain h' (ptr_of cs) cs \<and> sorted_wrt le cs \<and> ele_le c h' = le \<and>
        set cs = set rs \<union> run_nodes i R \<and> values_of h' = values_of h \<and>
        (\<forall>a. a \<notin> set rs \<and> a \<notin> run_nodes i R \<longrightarrow> h' a = h a)"
proof (induction "32 - i" arbitrary: h result rs i)
  case 0
  then have i: "i = 32" by simp
  have "collect_loop c h arr result i = Some (Inr (h, ptr_of rs))"
    using i chain_ptr_of[OF "0.prems"(3)] by (subst collect_loop.simps) simp
  moreover have "chain h (ptr_of rs) rs"
    using "0.prems"(3) chain_ptr_of[OF "0.prems"(3)] by simp
  moreover have "run_nodes i R = {}" using i by (auto simp: run_nodes_iff)
  ultimately show ?case
    using "0.prems"(1,4) by (intro exI[of _ h] exI[of _ rs]) simp
next
  case (Suc n)
  then have i: "i < 32" by simp
  have n: "n = 32 - Suc i" and i1: "Suc i \<le> 32" using Suc.hyps(2) by simp_all
  from Suc.prems(2) i have ci: "chain h (arr ! i) (R i)" and si: "sorted_wrt le (R i)"
    by (simp_all add: runs_inv_def)
  have pw: "set (R j) \<inter> set (R i) = {}" if "Suc i \<le> j" "j < 32" for j
    using Suc.prems(2) i that by (simp add: runs_inv_def)
  show ?case
  proof (cases "arr ! i = None")
    case True
    with ci have e: "R i = []" by simp
    have dj: "\<forall>j. Suc i \<le> j \<and> j < 32 \<longrightarrow> set (R j) \<inter> set rs = {}"
      using Suc.prems(5) by simp
    from Suc.hyps(1)[OF n Suc.prems(1) runs_inv_Suc[OF Suc.prems(2)] Suc.prems(3,4) dj i1]
    obtain h' cs where r:
      "collect_loop c h arr result (Suc i) = Some (Inr (h', ptr_of cs))"
      "chain h' (ptr_of cs) cs" "sorted_wrt le cs" "ele_le c h' = le"
      "set cs = set rs \<union> run_nodes (Suc i) R" "values_of h' = values_of h"
      "\<forall>a. a \<notin> set rs \<and> a \<notin> run_nodes (Suc i) R \<longrightarrow> h' a = h a"
      by blast
    have run: "collect_loop c h arr result i = Some (Inr (h', ptr_of cs))"
      using i True r(1) by (subst collect_loop.simps) simp
    have rn: "run_nodes i R = run_nodes (Suc i) R"
      using run_nodes_Suc[OF i, of R] e by simp
    show ?thesis
      using run r(2-7) unfolding rn by blast
  next
    case False
    have dj: "set rs \<inter> set (R i) = {}" using Suc.prems(5) i by auto
    from merge_run[OF tp Suc.prems(1) Suc.prems(3) ci dj Suc.prems(4) si]
    obtain h1 ms where m:
      "merge c h result (arr ! i) = Some (Inr (h1, ptr_of ms))" "chain h1 (ptr_of ms) ms"
      "sorted_wrt le ms" "set ms = set rs \<union> set (R i)" "ele_le c h1 = le"
      "values_of h1 = values_of h" "\<forall>a. a \<notin> set rs \<and> a \<notin> set (R i) \<longrightarrow> h1 a = h a"
      by blast
    have "\<forall>a. a \<in> run_nodes (Suc i) R \<longrightarrow> h1 a = h a"
    proof (intro allI impI)
      fix a assume "a \<in> run_nodes (Suc i) R"
      then obtain j where j: "Suc i \<le> j" "j < 32" "a \<in> set (R j)"
        by (auto simp: run_nodes_iff)
      then have "i \<le> j \<and> j < 32" by simp
      with Suc.prems(5) have "set (R j) \<inter> set rs = {}" by blast
      with j(3) have "a \<notin> set rs" "a \<notin> set (R i)"
        using pw[OF j(1,2)] by auto
      with m(7) show "h1 a = h a" by simp
    qed
    with runs_inv_Suc[OF Suc.prems(2)] have inv1: "runs_inv (Suc i) le h1 arr R"
      by (rule runs_inv_frame)
    have dj1: "\<forall>j. Suc i \<le> j \<and> j < 32 \<longrightarrow> set (R j) \<inter> set ms = {}"
    proof (intro allI impI)
      fix j assume j: "Suc i \<le> j \<and> j < 32"
      then have "i \<le> j \<and> j < 32" by simp
      with Suc.prems(5) have "set (R j) \<inter> set rs = {}" by blast
      then show "set (R j) \<inter> set ms = {}"
        using j pw[of j] m(4) by auto
    qed
    from Suc.hyps(1)[OF n m(5) inv1 m(2) m(3) dj1 i1]
    obtain h' cs where r:
      "collect_loop c h1 arr (ptr_of ms) (Suc i) = Some (Inr (h', ptr_of cs))"
      "chain h' (ptr_of cs) cs" "sorted_wrt le cs" "ele_le c h' = le"
      "set cs = set ms \<union> run_nodes (Suc i) R" "values_of h' = values_of h1"
      "\<forall>a. a \<notin> set ms \<and> a \<notin> run_nodes (Suc i) R \<longrightarrow> h' a = h1 a"
      by blast
    have run: "collect_loop c h arr result i = Some (Inr (h', ptr_of cs))"
      using i False m(1) r(1) by (subst collect_loop.simps) simp
    have st: "set cs = set rs \<union> run_nodes i R"
      using r(5) m(4) run_nodes_Suc[OF i, of R] by auto
    have vals: "values_of h' = values_of h" using r(6) m(6) by simp
    have fr: "\<forall>a. a \<notin> set rs \<and> a \<notin> run_nodes i R \<longrightarrow> h' a = h a"
    proof (intro allI impI)
      fix a assume a: "a \<notin> set rs \<and> a \<notin> run_nodes i R"
      then have 1: "a \<notin> set (R i)" "a \<notin> run_nodes (Suc i) R"
        using run_nodes_Suc[OF i, of R] by auto
      with a m(4) r(7) have "h' a = h1 a" by simp
      with m(7) a 1 show "h' a = h a" by simp
    qed
    show ?thesis
      using run r(2,3,4) st vals fr by blast
  qed
qed

lemma mergesort_bottomup_sorts:
  assumes "total_preorder c" and "chain h hd0 as"
  shows "\<exists>h' cs. mergesort_bottomup c h hd0 = Some (Inr (h', ptr_of cs)) \<and>
           chain h' (ptr_of cs) cs \<and> sorted_wrt (ele_le c h') cs \<and> mset cs = mset as \<and>
           values_of h' = values_of h \<and> (\<forall>a. a \<notin> set as \<longrightarrow> h' a = h a)"
proof -
  define le where "le = ele_le c h"
  define R0 :: "nat \<Rightarrow> addr list" where "R0 = (\<lambda>j. [])"
  have le: "ele_le c h = le" by (simp add: le_def)
  have inv0: "runs_inv 0 le h (replicate 32 None) R0"
    by (simp add: runs_inv_def R0_def)
  have d0: "\<forall>j<32. set (R0 j) \<inter> set as = {}" by (simp add: R0_def)
  have n0: "run_nodes 0 R0 = {}" by (simp add: run_nodes_def R0_def)
  from consume_loop_runs[OF assms(1) le inv0 assms(2) d0]
  obtain h1 arr1 R1 where k:
    "consume_loop c h (replicate 32 None) hd0 = Some (Inr (h1, arr1, None))"
    "ele_le c h1 = le" "runs_inv 0 le h1 arr1 R1"
    "run_nodes 0 R1 = set as \<union> run_nodes 0 R0" "values_of h1 = values_of h"
    "\<forall>a. a \<notin> set as \<and> a \<notin> run_nodes 0 R0 \<longrightarrow> h1 a = h a"
    by blast
  have c1: "chain h1 None []" and s1: "sorted_wrt le []" by simp_all
  have d1: "\<forall>j. 0 \<le> j \<and> j < 32 \<longrightarrow> set (R1 j) \<inter> set [] = {}" by simp
  from collect_loop_runs[OF assms(1) k(2) k(3) c1 s1 d1]
  obtain h' cs where r:
    "collect_loop c h1 arr1 None 0 = Some (Inr (h', ptr_of cs))"
    "chain h' (ptr_of cs) cs" "sorted_wrt le cs" "ele_le c h' = le"
    "set cs = set [] \<union> run_nodes 0 R1" "values_of h' = values_of h1"
    "\<forall>a. a \<notin> set [] \<and> a \<notin> run_nodes 0 R1 \<longrightarrow> h' a = h1 a"
    by auto
  have run: "mergesort_bottomup c h hd0 = Some (Inr (h', ptr_of cs))"
    using k(1) r(1) by (simp add: mergesort_bottomup_def)
  have st: "set cs = set as" using r(5) k(4) n0 by simp
  have "distinct cs" "distinct as"
    using chain_distinct[OF r(2)] chain_distinct[OF assms(2)] by simp_all
  with st have ms: "mset cs = mset as" by (simp add: set_eq_iff_mset_eq_distinct)
  have srt: "sorted_wrt (ele_le c h') cs" using r(3,4) by simp
  have vals: "values_of h' = values_of h" using r(6) k(5) by simp
  have fr: "\<forall>a. a \<notin> set as \<longrightarrow> h' a = h a"
    using r(7) k(4,6) n0 by simp
  show ?thesis
    using run r(2) srt ms vals fr by blast
qed

subsection \<open>The recursive sort\<close>

lemma chain_cut:
  "chain h p (xs @ y # ys) \<Longrightarrow> h y = Some e \<Longrightarrow>
   chain (h(y \<mapsto> e\<lparr>ele_next := None\<rparr>)) p (xs @ [y]) \<and> chain h (ele_next e) ys"
proof (induction xs arbitrary: p)
  case Nil
  then show ?case by simp
next
  case (Cons x xs)
  from Cons.prems(1) obtain ex where ex: "p = Some x" "h x = Some ex"
    "chain h (ele_next ex) (xs @ y # ys)"
    by (auto split: option.splits)
  have "x \<noteq> y" using chain_distinct[OF Cons.prems(1)] by auto
  with Cons.IH[OF ex(3) Cons.prems(2)] ex show ?case by simp
qed

lemma split_loop_chain:
  "chain h (Some s) (s # ms @ fs) \<Longrightarrow> chain h fast fs \<Longrightarrow> ms \<noteq> [] \<or> fs \<noteq> [] \<Longrightarrow>
   \<exists>pre slow post. split_loop h (Some s) fast = Some (Inr (Some slow)) \<and>
      s # ms @ fs = pre @ slow # post \<and> post \<noteq> []"
proof (induction "length fs" arbitrary: s ms fs fast rule: less_induct)
  case less
  show ?case
  proof (cases fs)
    case Nil
    with less.prems have "split_loop h (Some s) fast = Some (Inr (Some s))"
      by (subst split_loop.simps) simp
    moreover have "s # ms @ fs = [] @ s # ms" "ms \<noteq> []" using Nil less.prems(3) by simp_all
    ultimately show ?thesis by blast
  next
    case (Cons f fs1)
    with less.prems(2) obtain fe where fe: "fast = Some f" "h f = Some fe"
      "chain h (ele_next fe) fs1"
      by (auto split: option.splits)
    show ?thesis
    proof (cases fs1)
      case Nil
      with fe have "split_loop h (Some s) fast = Some (Inr (Some s))"
        by (subst split_loop.simps) simp
      moreover have "s # ms @ fs = [] @ s # (ms @ fs)" "ms @ fs \<noteq> []" using Cons by simp_all
      ultimately show ?thesis by blast
    next
      case (Cons f1 fs2)
      with fe(3) obtain f1e where f1e: "ele_next fe = Some f1" "h f1 = Some f1e"
        "chain h (ele_next f1e) fs2"
        by (auto split: option.splits)
      from less.prems(1) obtain se where se: "h s = Some se" "chain h (ele_next se) (ms @ fs)"
        by (auto split: option.splits)
      have fs: "fs = f # f1 # fs2" using \<open>fs = f # fs1\<close> Cons by simp
      obtain s1 ms1 where sm: "ms @ [f, f1] = s1 # ms1" by (cases ms) auto
      then have ms1: "ms1 \<noteq> []" by (cases ms) auto
      have eq: "ms @ fs = s1 # ms1 @ fs2"
        using sm fs by (metis append.assoc append_Cons append_Nil)
      with se(2) have c1: "chain h (Some s1) (s1 # ms1 @ fs2)" and n1: "ele_next se = Some s1"
        by (auto split: option.splits)
      have "length fs2 < length fs" using fs by simp
      from less.hyps[OF this c1 f1e(3)] ms1
      obtain pre slow post where r:
        "split_loop h (Some s1) (ele_next f1e) = Some (Inr (Some slow))"
        "s1 # ms1 @ fs2 = pre @ slow # post" "post \<noteq> []"
        by blast
      have "split_loop h (Some s) fast = Some (Inr (Some slow))"
        using fe(1,2) f1e(1,2) se(1) n1 r(1) by (subst split_loop.simps) simp
      moreover have "s # ms @ fs = (s # pre) @ slow # post" using eq r(2) by simp
      ultimately show ?thesis using r(3) by blast
    qed
  qed
qed

lemma mergesort_sorts:
  assumes tp: "total_preorder c"
  shows "ele_le c h = le \<Longrightarrow> chain h l as \<Longrightarrow>
     \<exists>h' cs. mergesort c h l = Some (Inr (h', ptr_of cs)) \<and> chain h' (ptr_of cs) cs \<and>
        sorted_wrt le cs \<and> set cs = set as \<and> ele_le c h' = le \<and>
        values_of h' = values_of h \<and> (\<forall>a. a \<notin> set as \<longrightarrow> h' a = h a) \<and>
        (\<forall>a b. before as a b \<and> le a b \<longrightarrow> before cs a b)"
proof (induction "length as" arbitrary: h l as rule: less_induct)
  case less
  show ?case
  proof (cases as)
    case Nil
    with less.prems have "mergesort c h l = Some (Inr (h, ptr_of []))"
      by (subst mergesort.simps) simp
    with less.prems Nil show ?thesis
      by (intro exI[of _ h] exI[of _ "[]"]) simp
  next
    case (Cons a as1)
    with less.prems(2) obtain e where e: "l = Some a" "h a = Some e" "chain h (ele_next e) as1"
      by (auto split: option.splits)
    show ?thesis
    proof (cases as1)
      case Nil
      with e have "mergesort c h l = Some (Inr (h, ptr_of [a]))"
        by (subst mergesort.simps) simp
      moreover have "chain h (ptr_of [a]) [a]" using e Nil by simp
      ultimately show ?thesis
        using less.prems(1) Cons Nil by (intro exI[of _ h] exI[of _ "[a]"]) simp
    next
      case (Cons b as2)
      with e(3) have nx: "ele_next e = Some b" by (auto split: option.splits)
      have c0: "chain h (Some a) (a # [] @ as1)" using less.prems(2) \<open>as = a # as1\<close> e(1) by simp
      from split_loop_chain[OF c0 e(3)] Cons
      obtain pre slow post where sp:
        "split_loop h (Some a) (ele_next e) = Some (Inr (Some slow))"
        "a # [] @ as1 = pre @ slow # post" "post \<noteq> []"
        by blast
      have as: "as = pre @ slow # post" using sp(2) \<open>as = a # as1\<close> by simp
      have dist: "distinct (pre @ slow # post)" using chain_distinct[OF less.prems(2)] as by simp
      from chain_dom[OF less.prems(2), of slow] as obtain se where se: "h slow = Some se" by auto
      define h1 where "h1 = h(slow \<mapsto> se\<lparr>ele_next := None\<rparr>)"
      define first where "first = pre @ [slow]"
      from chain_cut[OF less.prems(2)[unfolded as] se]
      have c1: "chain h1 l first" and cp: "chain h (ele_next se) post"
        by (simp_all add: h1_def first_def)
      have "\<forall>x\<in>set post. h1 x = h x" using dist by (auto simp: h1_def)
      then have "chain h1 (ele_next se) post = chain h (ele_next se) post" by (rule chain_frame)
      with cp have c2: "chain h1 (ele_next se) post" by simp
      have v1: "values_of h1 = values_of h" using se by (simp add: h1_def)
      have le1: "ele_le c h1 = le" using ele_le_values[OF v1, of c] less.prems(1) by simp
      have dj: "set first \<inter> set post = {}" using dist by (auto simp: first_def)
      have l1: "length first < length as" using as sp(3) by (cases post) (auto simp: first_def)
      from less.hyps[OF l1 le1 c1]
      obtain h2 cs1 where r1:
        "mergesort c h1 l = Some (Inr (h2, ptr_of cs1))" "chain h2 (ptr_of cs1) cs1"
        "sorted_wrt le cs1" "set cs1 = set first" "ele_le c h2 = le"
        "values_of h2 = values_of h1" "\<forall>x. x \<notin> set first \<longrightarrow> h2 x = h1 x"
        "\<forall>x y. before first x y \<and> le x y \<longrightarrow> before cs1 x y"
        by blast
      have "\<forall>x\<in>set post. h2 x = h1 x" using r1(7) dj by auto
      then have "chain h2 (ele_next se) post = chain h1 (ele_next se) post" by (rule chain_frame)
      with c2 have c3: "chain h2 (ele_next se) post" by simp
      have l2: "length post < length as" using as by simp
      from less.hyps[OF l2 r1(5) c3]
      obtain h3 cs2 where r2:
        "mergesort c h2 (ele_next se) = Some (Inr (h3, ptr_of cs2))" "chain h3 (ptr_of cs2) cs2"
        "sorted_wrt le cs2" "set cs2 = set post" "ele_le c h3 = le"
        "values_of h3 = values_of h2" "\<forall>x. x \<notin> set post \<longrightarrow> h3 x = h2 x"
        "\<forall>x y. before post x y \<and> le x y \<longrightarrow> before cs2 x y"
        by blast
      have "\<forall>x\<in>set cs1. h3 x = h2 x" using r2(7) r1(4) dj by auto
      then have "chain h3 (ptr_of cs1) cs1 = chain h2 (ptr_of cs1) cs1" by (rule chain_frame)
      with r1(2) have c4: "chain h3 (ptr_of cs1) cs1" by simp
      have dj2: "set cs1 \<inter> set cs2 = {}" using dj r1(4) r2(4) by simp
      define cs where "cs = merge_list le cs1 cs2"
      from merge_run_list[OF tp r2(5) c4 r2(2) dj2 r1(3) r2(3)]
      obtain h' where m:
        "merge c h3 (ptr_of cs1) (ptr_of cs2) = Some (Inr (h', ptr_of cs))"
        "chain h' (ptr_of cs) cs" "sorted_wrt le cs" "set cs = set cs1 \<union> set cs2"
        "ele_le c h' = le" "values_of h' = values_of h3"
        "\<forall>x. x \<notin> set cs1 \<and> x \<notin> set cs2 \<longrightarrow> h' x = h3 x"
        unfolding cs_def by auto
      have run: "mergesort c h l = Some (Inr (h', ptr_of cs))"
        using e(1,2) nx sp(1) se r1(1) r2(1) m(1)
        by (subst mergesort.simps) (simp add: h1_def[symmetric] Let_def)
      have st: "set cs = set as" using m(4) r1(4) r2(4) as by (auto simp: first_def)
      have vals: "values_of h' = values_of h" using m(6) r2(6) r1(6) v1 by simp
      have fr: "\<forall>x. x \<notin> set as \<longrightarrow> h' x = h x"
      proof (intro allI impI)
        fix x assume x: "x \<notin> set as"
        then have nf: "x \<notin> set first" and np: "x \<notin> set post" and ns: "x \<noteq> slow"
          using as by (auto simp: first_def)
        have "h' x = h3 x" using m(7) r1(4) r2(4) nf np by simp
        also have "h3 x = h2 x" using r2(7) np by simp
        also have "h2 x = h1 x" using r1(7) nf by simp
        also have "h1 x = h x" using ns by (simp add: h1_def)
        finally show "h' x = h x" .
      qed
      have tr: "transp le"
        unfolding less.prems(1)[symmetric] by (rule transpI) (rule ele_le_trans[OF tp])
      have stable: "\<forall>x y. before as x y \<and> le x y \<longrightarrow> before cs x y"
      proof (intro allI impI)
        fix x y assume xy: "before as x y \<and> le x y"
        have asf: "as = first @ post" using as by (simp add: first_def)
        from xy have "before (first @ post) x y" unfolding asf by simp
        then have b: "if x \<in> set first then before first x y \<or> y \<in> set post
                      else before post x y"
          by (simp only: before_append)
        show "before cs x y"
        proof (cases "x \<in> set first")
          case True
          with b consider "before first x y" | "y \<in> set post" by auto
          then show ?thesis
          proof cases
            case 1
            with r1(8) xy have "before cs1 x y" by blast
            then show ?thesis unfolding cs_def by (rule before_merge_list_left[OF _ dj2])
          next
            case 2
            have "x \<in> set cs1" "y \<in> set cs2" using True 2 r1(4) r2(4) by simp_all
            with xy show ?thesis
              unfolding cs_def by (intro before_merge_list[OF tr r1(3) dj2]) simp_all
          qed
        next
          case False
          with b have "before post x y" by simp
          with r2(8) xy have "before cs2 x y" by blast
          then show ?thesis unfolding cs_def by (rule before_merge_list_right[OF _ dj2])
        qed
      qed
      show ?thesis
        using run m(2,3,5) st vals fr stable by blast
    qed
  qed
qed

text \<open>
  The recursive sort is stable: an element that stands before another one it is at most,
  in particular one it ties with, still stands before it afterwards.
\<close>

lemma q_sort_topdown_stable:
  assumes "total_preorder c" and "queue_inv h q as"
  shows "\<exists>h' q' cs. q_sort_topdown c h (Some q) = Some (Inr (h', Some q')) \<and>
           chain h' (head q') cs \<and>
           (\<forall>a b. before as a b \<and> ele_le c h a b \<longrightarrow> before cs a b)"
proof (cases "head q = None \<or> head q = tail q")
  case True
  have "chain h (head q) as" using assms(2) by (simp add: queue_inv_def)
  moreover have "q_sort_topdown c h (Some q) = Some (Inr (h, Some q))"
    using True by (simp add: q_sort_topdown_def)
  ultimately show ?thesis by blast
next
  case False
  from assms(2) have ch: "chain h (head q) as" by (simp add: queue_inv_def)
  from mergesort_sorts[OF assms(1) refl ch]
  obtain h2 cs2 where t:
    "mergesort c h (head q) = Some (Inr (h2, ptr_of cs2))" "chain h2 (ptr_of cs2) cs2"
    "\<forall>a b. before as a b \<and> ele_le c h a b \<longrightarrow> before cs2 a b"
    by blast
  have "q_sort_topdown c h (Some q) = Some (Inr (h2, Some (q\<lparr>head := ptr_of cs2\<rparr>)))"
    using False t(1) by (auto simp: q_sort_topdown_def)
  with t(2,3) show ?thesis
    by (intro exI[of _ h2] exI[of _ "q\<lparr>head := ptr_of cs2\<rparr>"] exI[of _ cs2]) simp
qed

subsection \<open>The sort of a queue\<close>

lemma hd_last_single:
  assumes "distinct as" and "as \<noteq> []" and "hd as = last as"
  shows "as = [hd as]"
proof (cases as)
  case Nil
  with assms(2) show ?thesis by simp
next
  case (Cons a as1)
  show ?thesis
  proof (cases "as1 = []")
    case True
    with Cons show ?thesis by simp
  next
    case False
    then have "last as \<in> set as1" using Cons by simp
    with assms(1,3) Cons show ?thesis by simp
  qed
qed

lemma q_sort_short:
  assumes "queue_inv h q as" and "head q = None \<or> head q = tail q"
  shows "chain h (head q) as \<and> sorted_wrt le as"
proof -
  from assms(1) have ch: "chain h (head q) as" by (simp add: queue_inv_def)
  have "as = [] \<or> as = [hd as]"
  proof (cases "as = []")
    case False
    with assms(1) have "head q = Some (hd as)" "tail q = Some (last as)"
      using chain_ptr_of[OF ch] ptr_of_hd[OF False] by (simp_all add: queue_inv_def)
    with assms(2) have "hd as = last as" by simp
    from hd_last_single[OF chain_distinct[OF ch] False this] show ?thesis ..
  qed simp
  then have "sorted_wrt le as" by (metis sorted_wrt.simps(1) sorted_wrt1)
  with ch show ?thesis by simp
qed

lemma q_sort_example:
  "q_sort lex_cmp heap_ba (Some queue_12) = Some (Inr (heap_ba_sorted, Some queue_22))"
  by (simp add: q_sort_def queue_12_def queue_22_def heap_ba_def heap_ba_sorted_def
      mergesort_bottomup_def consume_loop.simps carry_loop.simps collect_loop.simps merge_def
      merge_loop.simps takes_l_def advance_def store_next_def cmp_list_ele_def fun_upd_twist)

lemma q_sort_topdown_example:
  "q_sort_topdown lex_cmp heap_ba (Some queue_12) = Some (Inr (heap_ba_sorted, Some queue_22))"
  by (simp add: q_sort_topdown_def queue_12_def queue_22_def heap_ba_def heap_ba_sorted_def
      mergesort.simps split_loop.simps merge_def merge_loop.simps takes_l_def advance_def
      store_next_def cmp_list_ele_def fun_upd_twist)

text \<open>
  On a queue that satisfies the invariant, and for a comparator that is a total preorder,
  \<open>q_sort\<close> returns; the chain of the new head is sorted for the comparator and is a
  permutation of the old chain; the set of live elements and every value are as before,
  and no element outside the chain is touched. The same holds for the \<open>q_sort\<close> of the
  other file, which sorts recursively.
\<close>

theorem q_sort_sorted_permutation:
  assumes "total_preorder c" and "queue_inv h q as"
  shows "(\<exists>h' q' cs. q_sort c h (Some q) = Some (Inr (h', Some q')) \<and>
            chain h' (head q') cs \<and> sorted_wrt (ele_le c h') cs \<and> mset cs = mset as \<and>
            dom h' = dom h \<and> values_of h' = values_of h \<and>
            (\<forall>a. a \<notin> set as \<longrightarrow> h' a = h a)) \<and>
         (\<exists>h' q' cs. q_sort_topdown c h (Some q) = Some (Inr (h', Some q')) \<and>
            chain h' (head q') cs \<and> sorted_wrt (ele_le c h') cs \<and> mset cs = mset as \<and>
            dom h' = dom h \<and> values_of h' = values_of h \<and>
            (\<forall>a. a \<notin> set as \<longrightarrow> h' a = h a))"
proof (cases "head q = None \<or> head q = tail q")
  case True
  from q_sort_short[OF assms(2) True, of "ele_le c h"]
  have s: "chain h (head q) as" "sorted_wrt (ele_le c h) as" by simp_all
  have 1: "q_sort c h (Some q) = Some (Inr (h, Some q))"
    using True by (simp add: q_sort_def)
  have 2: "q_sort_topdown c h (Some q) = Some (Inr (h, Some q))"
    using True by (simp add: q_sort_topdown_def)
  show ?thesis
    using 1 2 s by (intro conjI exI[of _ h] exI[of _ q] exI[of _ as]) simp_all
next
  case False
  from assms(2) have ch: "chain h (head q) as" by (simp add: queue_inv_def)
  from mergesort_bottomup_sorts[OF assms(1) ch]
  obtain h1 cs1 where b:
    "mergesort_bottomup c h (head q) = Some (Inr (h1, ptr_of cs1))" "chain h1 (ptr_of cs1) cs1"
    "sorted_wrt (ele_le c h1) cs1" "mset cs1 = mset as" "values_of h1 = values_of h"
    "\<forall>a. a \<notin> set as \<longrightarrow> h1 a = h a"
    by blast
  have r1: "q_sort c h (Some q) = Some (Inr (h1, Some (q\<lparr>head := ptr_of cs1\<rparr>)))"
    using False b(1) by (auto simp: q_sort_def)
  have p1: "\<exists>h' q' cs. q_sort c h (Some q) = Some (Inr (h', Some q')) \<and>
            chain h' (head q') cs \<and> sorted_wrt (ele_le c h') cs \<and> mset cs = mset as \<and>
            dom h' = dom h \<and> values_of h' = values_of h \<and>
            (\<forall>a. a \<notin> set as \<longrightarrow> h' a = h a)"
    using r1 b(2-6) values_of_dom[OF b(5)]
    by (intro exI[of _ h1] exI[of _ "q\<lparr>head := ptr_of cs1\<rparr>"] exI[of _ cs1]) simp
  from mergesort_sorts[OF assms(1) refl ch]
  obtain h2 cs2 where t:
    "mergesort c h (head q) = Some (Inr (h2, ptr_of cs2))" "chain h2 (ptr_of cs2) cs2"
    "sorted_wrt (ele_le c h) cs2" "set cs2 = set as" "ele_le c h2 = ele_le c h"
    "values_of h2 = values_of h" "\<forall>a. a \<notin> set as \<longrightarrow> h2 a = h a"
    by blast
  have "distinct cs2" "distinct as"
    using chain_distinct[OF t(2)] chain_distinct[OF ch] by simp_all
  with t(4) have ms: "mset cs2 = mset as" by (simp add: set_eq_iff_mset_eq_distinct)
  have srt: "sorted_wrt (ele_le c h2) cs2" using t(3,5) by simp
  have r2: "q_sort_topdown c h (Some q) = Some (Inr (h2, Some (q\<lparr>head := ptr_of cs2\<rparr>)))"
    using False t(1) by (auto simp: q_sort_topdown_def)
  have p2: "\<exists>h' q' cs. q_sort_topdown c h (Some q) = Some (Inr (h', Some q')) \<and>
            chain h' (head q') cs \<and> sorted_wrt (ele_le c h') cs \<and> mset cs = mset as \<and>
            dom h' = dom h \<and> values_of h' = values_of h \<and>
            (\<forall>a. a \<notin> set as \<longrightarrow> h' a = h a)"
    using r2 t(2) srt ms t(6,7) values_of_dom[OF t(6)]
    by (intro exI[of _ h2] exI[of _ "q\<lparr>head := ptr_of cs2\<rparr>"] exI[of _ cs2]) simp
  from p1 p2 show ?thesis ..
qed

theorem q_sort_sorted_permutation_witness:
  "total_preorder lex_cmp \<and> queue_inv heap_ba queue_12 [1, 2] \<and>
   q_sort lex_cmp heap_ba (Some queue_12) = Some (Inr (heap_ba_sorted, Some queue_22)) \<and>
   chain heap_ba_sorted (head queue_22) [2, 1] \<and>
   sorted_wrt (ele_le lex_cmp heap_ba_sorted) [2, 1] \<and>
   q_sort_topdown lex_cmp heap_ba (Some queue_12) = Some (Inr (heap_ba_sorted, Some queue_22))"
proof -
  have inv: "queue_inv heap_ba queue_12 [1, 2]"
    by (simp add: queue_inv_def heap_ba_def queue_12_def)
  from q_sort_sorted_permutation[OF total_preorder_lex_cmp inv]
  obtain h' q' cs where r: "q_sort lex_cmp heap_ba (Some queue_12) = Some (Inr (h', Some q'))"
    "chain h' (head q') cs" "sorted_wrt (ele_le lex_cmp h') cs"
    by blast
  from r(1) have h': "h' = heap_ba_sorted" and q': "q' = queue_22"
    unfolding q_sort_example by simp_all
  have c: "chain heap_ba_sorted (head queue_22) [2, 1]"
    by (simp add: heap_ba_sorted_def queue_22_def)
  from r(2) have cs: "cs = [2, 1]"
    unfolding h' q' by (rule chain_unique[OF _ c])
  show ?thesis
    apply (intro conjI)
    apply (rule total_preorder_lex_cmp)
    apply (rule inv)
    apply (rule q_sort_example)
    apply (rule c)
    apply (rule r(3)[unfolded h' cs])
    apply (rule q_sort_topdown_example)
    done
qed

text \<open>
  C4 fails on the code: \<open>q_sort\<close> returns at once when \<open>head\<close> and \<open>tail\<close> are the same
  element, which it takes for a queue of one element; but \<open>tail\<close> is not the last element
  after an earlier \<open>q_sort\<close>, which assigns \<open>head\<close> only. The calls of the interface
  build such a queue from the empty one: a and then b are inserted at the head, the queue
  b, a is sorted to a, b with \<open>tail\<close> left on a, the head a is removed, which sets
  \<open>tail\<close> to NULL, and z is inserted at the head, which sets \<open>tail\<close> to z. The queue
  is now z, b with \<open>head\<close> and \<open>tail\<close> both on z, and either \<open>q_sort\<close> leaves it as
  it is, z before b, which is not sorted.
\<close>

theorem q_sort_skips_stale_tail:
  "q_insert_head Map.empty (q_new True) ''a'' (Some 1) True =
     Inr (heap_a, Some \<lparr>head = Some 1, tail = Some 1, size = 1\<rparr>, True) \<and>
   q_insert_head heap_a (Some \<lparr>head = Some 1, tail = Some 1, size = 1\<rparr>) ''b'' (Some 2) True =
     Inr (heap_b_a, Some \<lparr>head = Some 2, tail = Some 1, size = 2\<rparr>, True) \<and>
   q_sort lex_cmp heap_b_a (Some \<lparr>head = Some 2, tail = Some 1, size = 2\<rparr>) =
     Some (Inr (heap_a_b, Some \<lparr>head = Some 1, tail = Some 1, size = 2\<rparr>)) \<and>
   q_sort_topdown lex_cmp heap_b_a (Some \<lparr>head = Some 2, tail = Some 1, size = 2\<rparr>) =
     Some (Inr (heap_a_b, Some \<lparr>head = Some 1, tail = Some 1, size = 2\<rparr>)) \<and>
   q_remove_head heap_a_b (Some \<lparr>head = Some 1, tail = Some 1, size = 2\<rparr>) None (0 :: 64 word) =
     Inr (heap_b, Some \<lparr>head = Some 2, tail = None, size = 1\<rparr>, None, True) \<and>
   q_insert_head heap_b (Some \<lparr>head = Some 2, tail = None, size = 1\<rparr>) ''z'' (Some 3) True =
     Inr (heap_z_b, Some \<lparr>head = Some 3, tail = Some 3, size = 2\<rparr>, True) \<and>
   chain heap_z_b (Some 3) [3, 2] \<and>
   chain_values heap_z_b [3, 2] = [Some ''z'', Some ''b''] \<and>
   q_sort lex_cmp heap_z_b (Some \<lparr>head = Some 3, tail = Some 3, size = 2\<rparr>) =
     Some (Inr (heap_z_b, Some \<lparr>head = Some 3, tail = Some 3, size = 2\<rparr>)) \<and>
   q_sort_topdown lex_cmp heap_z_b (Some \<lparr>head = Some 3, tail = Some 3, size = 2\<rparr>) =
     Some (Inr (heap_z_b, Some \<lparr>head = Some 3, tail = Some 3, size = 2\<rparr>)) \<and>
   lex_cmp ''z'' ''b'' = 1 \<and>
   \<not> sorted_wrt (ele_le lex_cmp heap_z_b) [3, 2]"
  by (simp add: q_new_def q_insert_head_def q_remove_head_def q_sort_def q_sort_topdown_def
      heap_a_def heap_b_a_def heap_a_b_def heap_b_def heap_z_b_def chain_values_def ele_le_def
      mergesort_bottomup_def consume_loop.simps carry_loop.simps collect_loop.simps
      mergesort.simps split_loop.simps merge_def merge_loop.simps takes_l_def advance_def
      store_next_def cmp_list_ele_def fun_upd_twist)

text \<open>
  C1 fails on the code: \<open>q_sort\<close> assigns \<open>head\<close> only. The queue b, a satisfies the
  invariant; after either sort the chain is a, b but \<open>tail\<close> is still the element a,
  now the first one, whose \<open>next\<close> is not NULL. An insertion at the tail then links the
  new element after a and drops b from the chain, while \<open>size\<close> becomes 3.
\<close>

theorem q_sort_leaves_tail:
  "queue_inv heap_ba queue_12 [1, 2] \<and>
   q_sort lex_cmp heap_ba (Some queue_12) = Some (Inr (heap_ba_sorted, Some queue_22)) \<and>
   q_sort_topdown lex_cmp heap_ba (Some queue_12) = Some (Inr (heap_ba_sorted, Some queue_22)) \<and>
   chain heap_ba_sorted (head queue_22) [2, 1] \<and>
   tail queue_22 = Some 2 \<and>
   map_option ele_next (heap_ba_sorted 2) = Some (Some 1) \<and>
   \<not> queue_inv heap_ba_sorted queue_22 [2, 1] \<and>
   q_insert_tail heap_ba_sorted (Some queue_22) ''c'' (Some 3) True =
     Inr (heap_lost, Some \<lparr>head = Some 2, tail = Some 3, size = 3\<rparr>, True) \<and>
   chain heap_lost (Some 2) [2, 3]"
  by (simp add: queue_inv_def q_sort_def q_sort_topdown_def queue_12_def queue_22_def
      heap_ba_def heap_ba_sorted_def mergesort_bottomup_def consume_loop.simps carry_loop.simps
      collect_loop.simps mergesort.simps split_loop.simps merge_def merge_loop.simps takes_l_def
      advance_def store_next_def cmp_list_ele_def fun_upd_twist q_insert_tail_def heap_lost_def)

text \<open>
  C3 fails on the code of queue.c: \<open>__mergesort_bottomup\<close> calls
  \<open>__merge(result, arr[i])\<close>, the later elements first, and \<open>__merge\<close> prefers its
  first argument on a tie. The values a and A compare equal without case; \<open>q_sort\<close>
  puts A, the later one, first, while the recursive sort of the other file keeps their
  order.
\<close>

theorem q_sort_swaps_equal_elements:
  "nocase_cmp ''a'' ''A'' = 0 \<and> nocase_cmp ''A'' ''a'' = 0 \<and>
   queue_inv heap_aA queue_12 [1, 2] \<and>
   q_sort nocase_cmp heap_aA (Some queue_12) = Some (Inr (heap_aA_swapped, Some queue_22)) \<and>
   chain heap_aA_swapped (head queue_22) [2, 1] \<and>
   q_sort_topdown nocase_cmp heap_aA (Some queue_12) = Some (Inr (heap_aA, Some queue_12))"
  by (simp add: queue_inv_def q_sort_def q_sort_topdown_def queue_12_def queue_22_def
      heap_aA_def heap_aA_swapped_def mergesort_bottomup_def consume_loop.simps carry_loop.simps
      collect_loop.simps mergesort.simps split_loop.simps merge_def merge_loop.simps takes_l_def
      advance_def store_next_def cmp_list_ele_def fun_upd_twist nocase_cmp_def to_lower_def)

section \<open>The invariant under insertion and removal\<close>

text \<open>A count below \<open>2 ^ 31\<close> is what the \<open>int\<close> that holds it reads as.\<close>

lemma sint_count: "n < 2 ^ 31 \<Longrightarrow> sint (of_nat n :: 32 word) = int n"
proof -
  assume n: "n < 2 ^ 31"
  have "sint (word_of_int (int n) :: 32 word) = signed_take_bit 31 (int n)"
    using sint_sbintrunc'[where 'a=32, of "int n"] by simp
  also have "\<dots> = int n"
    unfolding signed_take_bit_int_eq_self_iff using n by simp
  finally show ?thesis by simp
qed

lemma q_size_inv:
  assumes "queue_inv h q as" and "length as < 2 ^ 31"
  shows "q_size (Some q) = int (length as)"
proof (cases as)
  case Nil
  with assms(1) show ?thesis by (simp add: queue_inv_def q_size_def)
next
  case (Cons a as1)
  with assms(1) have "head q = Some a" "size q = of_nat (length as)"
    by (simp_all add: queue_inv_def)
  then show ?thesis using sint_count[OF assms(2)] by (simp add: q_size_def)
qed

lemma chain_fresh: "chain h p as \<Longrightarrow> h n = None \<Longrightarrow> n \<notin> set as"
  using chain_dom by fastforce

lemma q_insert_head_inv:
  assumes "queue_inv h q as" and "h n = None"
  shows "\<exists>h' q'. q_insert_head h (Some q) s (Some n) True = Inr (h', Some q', True) \<and>
           queue_inv h' q' (n # as) \<and> h' = h(n \<mapsto> \<lparr>ele_value = Some s, ele_next = head q\<rparr>)"
proof -
  from assms(1) have ch: "chain h (head q) as" by (simp add: queue_inv_def)
  have nas: "n \<notin> set as" by (rule chain_fresh[OF ch assms(2)])
  define h' where "h' = h(n \<mapsto> \<lparr>ele_value = Some s, ele_next = head q\<rparr>)"
  have "\<forall>a\<in>set as. h' a = h a" using nas by (auto simp: h'_def)
  then have "chain h' (head q) as = chain h (head q) as" by (rule chain_frame)
  with ch have c: "chain h' (Some n) (n # as)" by (simp add: h'_def)
  show ?thesis
    using assms(1) c unfolding h'_def
    by (cases "as = []") (auto simp: q_insert_head_def queue_inv_def Let_def)
qed

lemma chain_append_node:
  "chain h p (xs @ [y]) \<Longrightarrow> h y = Some te \<Longrightarrow> n \<notin> set (xs @ [y]) \<Longrightarrow>
   chain (h(n \<mapsto> \<lparr>ele_value = v, ele_next = None\<rparr>, y \<mapsto> te\<lparr>ele_next := Some n\<rparr>)) p (xs @ [y, n])"
proof (induction xs arbitrary: p)
  case Nil
  then show ?case by auto
next
  case (Cons x xs)
  from Cons.prems(1) obtain ex where ex: "p = Some x" "h x = Some ex"
    "chain h (ele_next ex) (xs @ [y])"
    by (auto split: option.splits)
  have "x \<noteq> y" using chain_distinct[OF Cons.prems(1)] by auto
  moreover have "x \<noteq> n" using Cons.prems(3) by auto
  moreover have "n \<notin> set (xs @ [y])" using Cons.prems(3) by auto
  ultimately show ?case
    using Cons.IH[OF ex(3) Cons.prems(2)] ex by simp
qed

lemma q_insert_tail_inv:
  assumes "queue_inv h q as" and "as \<noteq> []" and "h n = None"
  shows "\<exists>h' q'. q_insert_tail h (Some q) s (Some n) True = Inr (h', Some q', True) \<and>
           queue_inv h' q' (as @ [n]) \<and> dom h' = insert n (dom h)"
proof -
  from assms(1,2) have ch: "chain h (head q) as" and tl: "tail q = Some (last as)"
    and sz: "size q = of_nat (length as)"
    by (simp_all add: queue_inv_def)
  have nas: "n \<notin> set as" by (rule chain_fresh[OF ch assms(3)])
  obtain xs y where as: "as = xs @ [y]" using assms(2) by (metis rev_exhaust)
  from chain_snoc[OF ch[unfolded as]] obtain te where te: "h y = Some te" by blast
  have hd: "head q \<noteq> None" using ch as by (cases xs) auto
  have ny: "y \<noteq> n" using nas as by auto
  define h' where
    "h' = h(n \<mapsto> \<lparr>ele_value = Some s, ele_next = None\<rparr>, y \<mapsto> te\<lparr>ele_next := Some n\<rparr>)"
  have c: "chain h' (head q) (xs @ [y, n])"
    unfolding h'_def using ch nas te unfolding as
    by (intro chain_append_node[of h "head q" xs y te n]) simp_all
  have run: "q_insert_tail h (Some q) s (Some n) True =
      Inr (h', Some (q\<lparr>tail := Some n, size := size q + 1\<rparr>), True)"
    using hd tl te ny unfolding h'_def as
    by (auto simp: q_insert_tail_def Let_def)
  have inv: "queue_inv h' (q\<lparr>tail := Some n, size := size q + 1\<rparr>) (as @ [n])"
    using c sz by (simp add: queue_inv_def as)
  have dm: "dom h' = insert n (dom h)" using te by (auto simp: h'_def)
  from run inv dm show ?thesis by blast
qed

lemma q_remove_head_inv:
  assumes "queue_inv h q (a # as)"
    and "q_remove_head h (Some q) sp bufsize = Inr (h', q', sp', r)"
  shows "\<exists>q1. q' = Some q1 \<and> r \<and> h' = h(a := None) \<and> queue_inv h' q1 as"
proof -
  from assms(1) obtain e where e: "head q = Some a" "h a = Some e" "chain h (ele_next e) as"
    and tl: "tail q = Some (last (a # as))" and sz: "size q = of_nat (length (a # as))"
    by (auto simp: queue_inv_def split: option.splits)
  have da: "a \<notin> set as" using assms(1) chain_distinct[of h "head q" "a # as"]
    by (simp add: queue_inv_def)
  have "\<forall>x\<in>set as. (h(a := None)) x = h x" using da by auto
  then have "chain (h(a := None)) (ele_next e) as = chain h (ele_next e) as" by (rule chain_frame)
  with e(3) have c: "chain (h(a := None)) (ele_next e) as" by simp
  define q1 where "q1 = \<lparr>head = ele_next e,
      tail = (if as = [] then None else Some (last as)), size = of_nat (length as)\<rparr>"
  have la: "as \<noteq> [] \<Longrightarrow> last as \<noteq> a" using da last_in_set by metis
  have q: "(if head q = tail q then q\<lparr>tail := None\<rparr> else q)\<lparr>head := ele_next e\<rparr>
             \<lparr>size := size ((if head q = tail q then q\<lparr>tail := None\<rparr> else q)\<lparr>head := ele_next e\<rparr>) - 1\<rparr> = q1"
    using e(1) tl sz la by (auto simp: q1_def)
  have inv: "queue_inv (h(a := None)) q1 as"
    using c by (simp add: queue_inv_def q1_def)
  from assms(2) have "q' = Some q1 \<and> r \<and> h' = h(a := None)"
    unfolding q_remove_head_def using e(1,2) q
    by (auto simp: Let_def split: option.splits sum.splits)
  with inv show ?thesis by blast
qed

lemma q_insert_head_step:
  assumes "queue_inv h q as" and "\<forall>n. newh = Some n \<longrightarrow> h n = None"
    and "q_insert_head h (Some q) s newh ok = Inr (h1, q1, r)"
  shows "\<exists>q2 as1. q1 = Some q2 \<and> queue_inv h1 q2 as1 \<and>
           int (length as1) = int (length as) + (if r then 1 else 0) \<and>
           (\<forall>m. h m = None \<and> Some m \<noteq> newh \<longrightarrow> h1 m = None)"
proof (cases "\<exists>n. newh = Some n \<and> ok")
  case True
  then obtain n where n: "newh = Some n" "ok" by blast
  with assms(2) have "h n = None" by simp
  from q_insert_head_inv[OF assms(1) this, of s] assms(3) n
  have "q1 \<noteq> None \<and> queue_inv h1 (the q1) (n # as) \<and> r \<and>
        h1 = h(n \<mapsto> \<lparr>ele_value = Some s, ele_next = head q\<rparr>)"
    by auto
  with n show ?thesis by (intro exI[of _ "the q1"] exI[of _ "n # as"]) auto
next
  case False
  with assms(3) have "h1 = h \<and> q1 = Some q \<and> \<not> r"
    by (auto simp: q_insert_head_def split: option.splits if_splits)
  with assms(1) show ?thesis by (intro exI[of _ q] exI[of _ as]) simp
qed

lemma q_insert_tail_step:
  assumes "queue_inv h q as" and "\<forall>n. newh = Some n \<longrightarrow> h n = None"
    and "q_insert_tail h (Some q) s newh ok = Inr (h1, q1, r)"
  shows "\<exists>q2 as1. q1 = Some q2 \<and> queue_inv h1 q2 as1 \<and>
           int (length as1) = int (length as) + (if r then 1 else 0) \<and>
           (\<forall>m. h m = None \<and> Some m \<noteq> newh \<longrightarrow> h1 m = None)"
proof (cases "\<exists>n. newh = Some n \<and> ok")
  case True
  then obtain n where n: "newh = Some n" "ok" by blast
  with assms(2) have fresh: "h n = None" by simp
  have ne: "as \<noteq> []"
  proof
    assume "as = []"
    with assms(1) have "head q = None" "tail q = None" by (simp_all add: queue_inv_def)
    then have "q_insert_tail h (Some q) s newh ok = Inl NullDeref"
      using n by (simp add: q_insert_tail_def)
    with assms(3) show False by simp
  qed
  from q_insert_tail_inv[OF assms(1) ne fresh, of s] assms(3) n
  have "q1 \<noteq> None \<and> queue_inv h1 (the q1) (as @ [n]) \<and> r \<and> dom h1 = insert n (dom h)"
    by auto
  then show ?thesis
    using n by (intro exI[of _ "the q1"] exI[of _ "as @ [n]"]) (auto simp: dom_def)
next
  case False
  with assms(3) have "h1 = h \<and> q1 = Some q \<and> \<not> r"
    by (auto simp: q_insert_tail_def split: option.splits if_splits)
  with assms(1) show ?thesis by (intro exI[of _ q] exI[of _ as]) simp
qed

lemma q_remove_head_step:
  assumes "queue_inv h q as"
    and "q_remove_head h (Some q) sp bufsize = Inr (h1, q1, sp1, r)"
  shows "\<exists>q2 as1. q1 = Some q2 \<and> queue_inv h1 q2 as1 \<and>
           int (length as1) = int (length as) - (if r then 1 else 0) \<and>
           (\<forall>m. h m = None \<longrightarrow> h1 m = None)"
proof (cases as)
  case Nil
  with assms(1) have "head q = None" by (simp add: queue_inv_def)
  with assms(2) have "h1 = h \<and> q1 = Some q \<and> \<not> r" by (simp add: q_remove_head_def)
  with assms(1) show ?thesis by (intro exI[of _ q] exI[of _ as]) simp
next
  case (Cons a as1)
  from q_remove_head_inv[OF assms(1)[unfolded Cons] assms(2)]
  obtain q2 where "q1 = Some q2" "r" "h1 = h(a := None)" "queue_inv h1 q2 as1" by blast
  with Cons show ?thesis by (intro exI[of _ q2] exI[of _ as1]) simp
qed

text \<open>
  Apart from the fault of \<open>q_insert_tail\<close> on an empty queue and from a buffer that is
  too small, the calls keep the invariant and count: for a sequence of calls that returns,
  on a queue that satisfies the invariant and with allocations that answer addresses not
  in use, the number of elements after the calls is the number before plus the successful
  insertions minus the successful removals; \<open>q_size\<close> returns these numbers as long as
  they are below \<open>2 ^ 31\<close>, which is what its \<open>int\<close> holds.
\<close>

lemma run_counts:
  "queue_inv h q as \<Longrightarrow> distinct (allocs cs) \<Longrightarrow> \<forall>n\<in>set (allocs cs). h n = None \<Longrightarrow>
   run h (Some q) cs = Inr (h', q', k) \<Longrightarrow>
   \<exists>q1 as1. q' = Some q1 \<and> queue_inv h' q1 as1 \<and> int (length as1) = int (length as) + k"
proof (induction cs arbitrary: h q as k)
  case Nil
  then show ?case by auto
next
  case (Cons c cs)
  show ?case
  proof (cases c)
    case (Insert_head s newh ok)
    from Cons.prems(4) obtain h1 q1 r k1 where st:
      "q_insert_head h (Some q) s newh ok = Inr (h1, q1, r)"
      "run h1 q1 cs = Inr (h', q', k1)" "k = k1 + (if r then 1 else 0)"
      unfolding Insert_head by (auto split: sum.splits)
    have fr: "\<forall>n. newh = Some n \<longrightarrow> h n = None"
      using Cons.prems(3) Insert_head by auto
    from q_insert_head_step[OF Cons.prems(1) fr st(1)]
    obtain q2 as1 where s1: "q1 = Some q2" "queue_inv h1 q2 as1"
      "int (length as1) = int (length as) + (if r then 1 else 0)"
      "\<forall>m. h m = None \<and> Some m \<noteq> newh \<longrightarrow> h1 m = None"
      by blast
    have d: "distinct (allocs cs)" and f: "\<forall>n\<in>set (allocs cs). h1 n = None"
      using Cons.prems(2,3) s1(4) Insert_head by (cases newh; auto)+
    from Cons.IH[OF s1(2) d f st(2)[unfolded s1(1)]]
    obtain q3 as3 where "q' = Some q3" "queue_inv h' q3 as3"
      "int (length as3) = int (length as1) + k1"
      by blast
    then show ?thesis
      using s1(3) st(3) by (intro exI[of _ q3] exI[of _ as3]) simp
  next
    case (Insert_tail s newh ok)
    from Cons.prems(4) obtain h1 q1 r k1 where st:
      "q_insert_tail h (Some q) s newh ok = Inr (h1, q1, r)"
      "run h1 q1 cs = Inr (h', q', k1)" "k = k1 + (if r then 1 else 0)"
      unfolding Insert_tail by (auto split: sum.splits)
    have fr: "\<forall>n. newh = Some n \<longrightarrow> h n = None"
      using Cons.prems(3) Insert_tail by auto
    from q_insert_tail_step[OF Cons.prems(1) fr st(1)]
    obtain q2 as1 where s1: "q1 = Some q2" "queue_inv h1 q2 as1"
      "int (length as1) = int (length as) + (if r then 1 else 0)"
      "\<forall>m. h m = None \<and> Some m \<noteq> newh \<longrightarrow> h1 m = None"
      by blast
    have d: "distinct (allocs cs)" and f: "\<forall>n\<in>set (allocs cs). h1 n = None"
      using Cons.prems(2,3) s1(4) Insert_tail by (cases newh; auto)+
    from Cons.IH[OF s1(2) d f st(2)[unfolded s1(1)]]
    obtain q3 as3 where "q' = Some q3" "queue_inv h' q3 as3"
      "int (length as3) = int (length as1) + k1"
      by blast
    then show ?thesis
      using s1(3) st(3) by (intro exI[of _ q3] exI[of _ as3]) simp
  next
    case (Remove_head sp bufsize)
    from Cons.prems(4) obtain h1 q1 sp1 r k1 where st:
      "q_remove_head h (Some q) sp bufsize = Inr (h1, q1, sp1, r)"
      "run h1 q1 cs = Inr (h', q', k1)" "k = k1 - (if r then 1 else 0)"
      unfolding Remove_head by (auto split: sum.splits)
    from q_remove_head_step[OF Cons.prems(1) st(1)]
    obtain q2 as1 where s1: "q1 = Some q2" "queue_inv h1 q2 as1"
      "int (length as1) = int (length as) - (if r then 1 else 0)"
      "\<forall>m. h m = None \<longrightarrow> h1 m = None"
      by blast
    have d: "distinct (allocs cs)" and f: "\<forall>n\<in>set (allocs cs). h1 n = None"
      using Cons.prems(2,3) s1(4) Remove_head by auto
    from Cons.IH[OF s1(2) d f st(2)[unfolded s1(1)]]
    obtain q3 as3 where "q' = Some q3" "queue_inv h' q3 as3"
      "int (length as3) = int (length as1) + k1"
      by blast
    then show ?thesis
      using s1(3) st(3) by (intro exI[of _ q3] exI[of _ as3]) simp
  qed
qed

lemma run_q_size:
  assumes "queue_inv h q as" and "distinct (allocs cs)" and "\<forall>n\<in>set (allocs cs). h n = None"
    and "run h (Some q) cs = Inr (h', q', k)"
    and "length as < 2 ^ 31" and "int (length as) + k < 2 ^ 31"
  shows "q_size q' = q_size (Some q) + k"
proof -
  from run_counts[OF assms(1-4)] obtain q1 as1 where r:
    "q' = Some q1" "queue_inv h' q1 as1" "int (length as1) = int (length as) + k"
    by blast
  from r(3) assms(6) have "length as1 < 2 ^ 31" by simp
  from q_size_inv[OF r(2) this] q_size_inv[OF assms(1,5)] r(1,3) show ?thesis by simp
qed

subsection \<open>The round trip from a queue that is not empty\<close>

lemma chain_values_frame:
  "\<forall>a\<in>set as. values_of h' a = values_of h a \<Longrightarrow> chain_values h' as = chain_values h as"
proof -
  assume v: "\<forall>a\<in>set as. values_of h' a = values_of h a"
  have "(case h' a of None \<Rightarrow> None | Some e \<Rightarrow> ele_value e) =
        (case h a of None \<Rightarrow> None | Some e \<Rightarrow> ele_value e)" if "a \<in> set as" for a
    using v that by (cases "h a"; cases "h' a") (auto simp: values_of_def)
  then show ?thesis by (simp add: chain_values_def)
qed

lemma q_insert_tail_values:
  assumes "queue_inv h q as" and "as \<noteq> []" and "h n = None"
  shows "\<exists>h' q'. q_insert_tail h (Some q) s (Some n) True = Inr (h', Some q', True) \<and>
           queue_inv h' q' (as @ [n]) \<and> dom h' = insert n (dom h) \<and>
           chain_values h' (as @ [n]) = chain_values h as @ [Some s]"
proof -
  from assms(1,2) have ch: "chain h (head q) as" and tl: "tail q = Some (last as)"
    by (simp_all add: queue_inv_def)
  have nas: "n \<notin> set as" by (rule chain_fresh[OF ch assms(3)])
  from chain_dom[OF ch, of "last as"] assms(2) obtain te where te: "h (last as) = Some te"
    by auto
  have hd: "head q \<noteq> None" using ch assms(2) by (cases as) auto
  define h1 where
    "h1 = h(n \<mapsto> \<lparr>ele_value = Some s, ele_next = None\<rparr>, last as \<mapsto> te\<lparr>ele_next := Some n\<rparr>)"
  from q_insert_tail_inv[OF assms, of s] obtain h' q' where r:
    "q_insert_tail h (Some q) s (Some n) True = Inr (h', Some q', True)"
    "queue_inv h' q' (as @ [n])" "dom h' = insert n (dom h)"
    by blast
  have "q_insert_tail h (Some q) s (Some n) True =
      Inr (h1, Some (q\<lparr>tail := Some n, size := size q + 1\<rparr>), True)"
    using hd tl te nas assms(2) unfolding h1_def
    by (auto simp: q_insert_tail_def Let_def)
  with r(1) have h': "h' = h1" by simp
  have "\<forall>a\<in>set as. values_of h1 a = values_of h a"
    using nas te by (auto simp: h1_def values_of_def)
  then have "chain_values h1 as = chain_values h as" by (rule chain_values_frame)
  moreover have "chain_values h1 [n] = [Some s]"
    using nas assms(2) by (auto simp: chain_values_def h1_def)
  ultimately have "chain_values h1 (as @ [n]) = chain_values h as @ [Some s]"
    by (simp add: chain_values_def)
  with r h' show ?thesis by blast
qed

lemma insert_tail_all_appends:
  "queue_inv h q as \<Longrightarrow> as \<noteq> [] \<Longrightarrow> distinct (map snd vs) \<Longrightarrow>
   \<forall>n\<in>set (map snd vs). h n = None \<Longrightarrow>
   \<exists>h' q'. insert_tail_all h (Some q) vs = Inr (h', Some q') \<and>
      queue_inv h' q' (as @ map snd vs) \<and>
      chain_values h' (as @ map snd vs) = chain_values h as @ map (\<lambda>v. Some (fst v)) vs"
proof (induction vs arbitrary: h q as)
  case Nil
  then show ?case by simp
next
  case (Cons v vs)
  obtain s n where v: "v = (s, n)" by (cases v)
  have fresh: "h n = None" using Cons.prems(4) v by simp
  from q_insert_tail_values[OF Cons.prems(1,2) fresh, of s]
  obtain h1 q1 where r:
    "q_insert_tail h (Some q) s (Some n) True = Inr (h1, Some q1, True)"
    "queue_inv h1 q1 (as @ [n])" "dom h1 = insert n (dom h)"
    "chain_values h1 (as @ [n]) = chain_values h as @ [Some s]"
    by blast
  have d: "distinct (map snd vs)" using Cons.prems(3) by simp
  have f: "\<forall>m\<in>set (map snd vs). h1 m = None"
  proof
    fix m assume m: "m \<in> set (map snd vs)"
    then have "m \<noteq> n" "h m = None" using Cons.prems(3,4) v by auto
    then have "m \<notin> dom h1" using r(3) by (auto simp: dom_def)
    then show "h1 m = None" by (simp add: dom_def)
  qed
  from Cons.IH[OF r(2) _ d f]
  obtain h' q' where i:
    "insert_tail_all h1 (Some q1) vs = Inr (h', Some q')"
    "queue_inv h' q' ((as @ [n]) @ map snd vs)"
    "chain_values h' ((as @ [n]) @ map snd vs) =
       chain_values h1 (as @ [n]) @ map (\<lambda>v. Some (fst v)) vs"
    by auto
  have "insert_tail_all h (Some q) (v # vs) = Inr (h', Some q')"
    using r(1) i(1) v by simp
  with i(2,3) r(4) v show ?case by simp
qed

lemma remove_head_all_values:
  "queue_inv h q as \<Longrightarrow> chain_values h as = map Some ws \<Longrightarrow>
   \<forall>w\<in>set ws. CHR 0x00 \<notin> set w \<and> length w < unat bufsize \<Longrightarrow> unat bufsize \<le> length buf \<Longrightarrow>
   remove_head_all (length as) h (Some q) buf bufsize = Inr ws"
proof (induction as arbitrary: h q ws buf)
  case Nil
  then show ?case by (simp add: chain_values_def)
next
  case (Cons a as)
  from Cons.prems(2) obtain w ws1 where ws: "ws = w # ws1"
    by (cases ws) (auto simp: chain_values_def)
  from Cons.prems(1) obtain e where e: "head q = Some a" "h a = Some e"
    by (auto simp: queue_inv_def split: option.splits)
  have val: "ele_value e = Some w" using Cons.prems(2) ws e by (simp add: chain_values_def)
  have w: "CHR 0x00 \<notin> set w" "length w < unat bufsize" using Cons.prems(3) ws by simp_all
  have n: "1 \<le> unat bufsize" using w(2) by simp
  define buf1 where "buf1 = take (unat bufsize - 1) w @
      replicate (unat bufsize - 1 - length w) (CHR 0x00) @ CHR 0x00 # drop (unat bufsize) buf"
  have cp: "copy_out buf w bufsize = Inr buf1"
    unfolding buf1_def by (rule copy_out_fits[OF n Cons.prems(4)])
  then obtain h1 q1 where rm: "q_remove_head h (Some q) (Some buf) bufsize = Inr (h1, q1, Some buf1, True)"
    using e val by (simp add: q_remove_head_def Let_def)
  from q_remove_head_inv[OF Cons.prems(1) rm] obtain q2 where s:
    "q1 = Some q2" "h1 = h(a := None)" "queue_inv h1 q2 as"
    by blast
  have da: "a \<notin> set as" using Cons.prems(1) chain_distinct[of h "head q" "a # as"]
    by (simp add: queue_inv_def)
  have "\<forall>x\<in>set as. values_of h1 x = values_of h x"
    using da s(2) by (auto simp: values_of_def)
  then have "chain_values h1 as = chain_values h as" by (rule chain_values_frame)
  with Cons.prems(2) ws have cv: "chain_values h1 as = map Some ws1"
    by (simp add: chain_values_def)
  have w1: "\<forall>w\<in>set ws1. CHR 0x00 \<notin> set w \<and> length w < unat bufsize"
    using Cons.prems(3) ws by simp
  have len: "unat bufsize \<le> length buf1"
    using Cons.prems(4) w(2) by (simp add: buf1_def)
  from Cons.IH[OF s(3) cv w1 len]
  have rest: "remove_head_all (length as) h1 (Some q2) buf1 bufsize = Inr ws1" .
  have "takeWhile (\<lambda>c. c \<noteq> CHR 0x00) buf1 = take (unat bufsize - 1) w"
    unfolding buf1_def by (rule cstring_of_copy[OF w(1)])
  then have rd: "takeWhile (\<lambda>c. c \<noteq> CHR 0x00) buf1 = w"
    using w(2) by simp
  show ?case
    using rm s(1) rest rd ws by simp
qed

text \<open>
  The round trip, with the first value inserted at the head: the fault of
  \<open>q_insert_tail\<close> on the empty queue apart, values inserted at the tail come back from
  the head in the order of insertion.
\<close>

lemma round_trip_after_insert_head:
  assumes "distinct (n # map snd vs)" and "\<forall>m\<in>set (n # map snd vs). h m = None"
    and "\<forall>w\<in>set (s # map fst vs). CHR 0x00 \<notin> set w \<and> length w < unat bufsize"
    and "unat bufsize \<le> length buf"
  shows "\<exists>h1 q1 h2 q2. q_insert_head h (q_new True) s (Some n) True = Inr (h1, Some q1, True) \<and>
           insert_tail_all h1 (Some q1) vs = Inr (h2, Some q2) \<and>
           remove_head_all (Suc (length vs)) h2 (Some q2) buf bufsize = Inr (s # map fst vs)"
proof -
  have inv0: "queue_inv h \<lparr>head = None, tail = None, size = 0\<rparr> []"
    by (simp add: queue_inv_def)
  have fresh: "h n = None" using assms(2) by simp
  from q_insert_head_inv[OF inv0 fresh, of s]
  obtain h1 q1 where a:
    "q_insert_head h (Some \<lparr>head = None, tail = None, size = 0\<rparr>) s (Some n) True =
       Inr (h1, Some q1, True)"
    "queue_inv h1 q1 [n]" "h1 = h(n \<mapsto> \<lparr>ele_value = Some s, ele_next = None\<rparr>)"
    by auto
  have d: "distinct (map snd vs)" using assms(1) by simp
  have f: "\<forall>m\<in>set (map snd vs). h1 m = None" using assms(1,2) a(3) by auto
  from insert_tail_all_appends[OF a(2) _ d f]
  obtain h2 q2 where b:
    "insert_tail_all h1 (Some q1) vs = Inr (h2, Some q2)"
    "queue_inv h2 q2 ([n] @ map snd vs)"
    "chain_values h2 ([n] @ map snd vs) = chain_values h1 [n] @ map (\<lambda>v. Some (fst v)) vs"
    by auto
  have "chain_values h1 [n] = [Some s]" by (simp add: chain_values_def a(3))
  with b(3) have cv: "chain_values h2 ([n] @ map snd vs) = map Some (s # map fst vs)"
    by (simp add: comp_def)
  from remove_head_all_values[OF b(2) cv assms(3,4)]
  have "remove_head_all (Suc (length vs)) h2 (Some q2) buf bufsize = Inr (s # map fst vs)"
    by simp
  with a(1) b(1) show ?thesis by (auto simp: q_new_def)
qed

end
